theory Spec2Isabelle
  imports Complex_Main "HOL-Library.Sublist"
begin

section \<open>The keyed concurrent write queue (server/src/services/queue.service.js)\<close>

text \<open>
  \<open>KeyedConcurrentQueue\<close> is a JavaScript class whose methods run on a single-threaded
  event loop. Each synchronous stretch of code (a call of \<open>enqueue\<close>, the continuation
  of an \<open>await\<close>, a \<open>.finally\<close> callback) is one atomic transition of the model; the
  environment chooses which transition comes next.

  \<^item> The \<open>Map\<close> \<open>_lanes\<close> keeps insertion order, which \<open>_drain\<close> iterates: it is an
    association list from keys to the addresses of the lane arrays.
  \<^item> Lane arrays are shared between the map and the suspended \<open>_processLane\<close> call that
    captured them in \<open>items\<close>: they live in an explicit store \<open>arrays\<close>.
  \<^item> A suspended \<open>_processLane(key)\<close> call is a \<open>phase\<close> in \<open>procs\<close>.
  \<^item> Tasks are asynchronous functions the queue treats as opaque: a task is named by a
    number, and whether a run of it resolves or rejects is chosen by the environment.
    A callback is named by a number too and may throw. Neither tasks nor callbacks call
    back into the queue.
  \<^item> Every queue item is a fresh JavaScript object; \<open>uid\<close> is its object identity.
  \<^item> Calls leaving the queue (task starts, timers, callbacks) are recorded in \<open>trace\<close>,
    together with the points where an item is admitted and where it completes.
    Console output is not modelled.
\<close>

type_synonym key = string
type_synonym addr = nat

datatype jserror = Error string

record callback =
  cb_id :: nat
  cb_throws :: bool

record item =
  uid :: nat
  task :: nat
  label :: string
  retries :: nat
  onSuccess :: "callback option"
  onFailure :: "callback option"

datatype phase =
    AwaitingTask addr item
  | AwaitingTimer addr item int
  | Completed

datatype event =
    Enqueued key nat
  | TaskStarted key nat
  | TaskSucceeded key nat
  | TaskFailed key nat jserror
  | TimerSet key nat int
  | CallbackInvoked nat "jserror option"

record kq =
  name :: string
  lanes :: "(key \<times> addr) list"
  activeLanes :: "key list"
  concurrency :: int
  maxSize :: int
  maxRetries :: int
  retryDelay :: int
  totalItems :: int
  processed :: int
  failed :: int
  arrays :: "addr \<Rightarrow> item list"
  nextAddr :: addr
  nextUid :: nat
  procs :: "key \<Rightarrow> phase option"
  trace :: "event list"

record opts =
  opt_concurrency :: "int option"
  opt_maxSize :: "int option"
  opt_retries :: "int option"
  opt_retryDelay :: "int option"

definition or_default :: "'a option \<Rightarrow> 'a \<Rightarrow> 'a" where
  "or_default v d = (case v of None \<Rightarrow> d | Some x \<Rightarrow> x)"

text \<open>The constructor, with its defaults 5, 10000, 2 and 1000.\<close>

definition KeyedConcurrentQueue :: "string \<Rightarrow> opts \<Rightarrow> kq" where
  "KeyedConcurrentQueue nm os =
     \<lparr> name = nm, lanes = [], activeLanes = [],
       concurrency = or_default (opt_concurrency os) 5,
       maxSize = or_default (opt_maxSize os) 10000,
       maxRetries = or_default (opt_retries os) 2,
       retryDelay = or_default (opt_retryDelay os) 1000,
       totalItems = 0, processed = 0, failed = 0,
       arrays = (\<lambda>_. []), nextAddr = 0, nextUid = 0,
       procs = (\<lambda>_. None), trace = [] \<rparr>"

definition driveQueue :: kq where
  "driveQueue = KeyedConcurrentQueue ''DriveQueue''
     \<lparr> opt_concurrency = Some 5, opt_maxSize = Some 5000,
       opt_retries = Some 2, opt_retryDelay = Some 1500 \<rparr>"

definition attendanceQueue :: kq where
  "attendanceQueue = KeyedConcurrentQueue ''AttendanceQueue''
     \<lparr> opt_concurrency = Some 10, opt_maxSize = Some 50000,
       opt_retries = Some 2, opt_retryDelay = Some 1000 \<rparr>"

text \<open>
  \<open>if (cb) try { cb(arg); } catch (e) { /* ignore */ }\<close>: the call is recorded; what
  the callback throws is caught and dropped.
\<close>

definition call_cb :: "callback \<Rightarrow> jserror option \<Rightarrow> kq \<Rightarrow> (jserror + unit) \<times> kq" where
  "call_cb cb arg q =
     (if cb_throws cb then Inl (Error ''thrown by callback'') else Inr (),
      q\<lparr>trace := trace q @ [CallbackInvoked (cb_id cb) arg]\<rparr>)"

definition try_cb :: "callback option \<Rightarrow> jserror option \<Rightarrow> kq \<Rightarrow> kq" where
  "try_cb cbo arg q =
     (case cbo of
        None \<Rightarrow> q
      | Some cb \<Rightarrow> (case call_cb cb arg q of (Inl e, q') \<Rightarrow> q' | (Inr u, q') \<Rightarrow> q'))"

text \<open>
  The body of the \<open>while\<close> loop of \<open>_processLane\<close> from the loop test up to the next
  \<open>await\<close>: an empty array ends the function (its promise settles, the \<open>.finally\<close>
  callback is pending); otherwise the head is shifted out, the count is decremented and
  the task is called.
\<close>

definition lane_loop :: "key \<Rightarrow> addr \<Rightarrow> kq \<Rightarrow> kq" where
  "lane_loop k a q =
     (case arrays q a of
        [] \<Rightarrow> q\<lparr>procs := (procs q)(k \<mapsto> Completed)\<rparr>
      | it # rest \<Rightarrow>
          q\<lparr>arrays := (arrays q)(a := rest),
            totalItems := totalItems q - 1,
            procs := (procs q)(k \<mapsto> AwaitingTask a it),
            trace := trace q @ [TaskStarted k (uid it)]\<rparr>)"

definition processLane :: "key \<Rightarrow> kq \<Rightarrow> kq" where
  "processLane k q =
     (case map_of (lanes q) k of
        None \<Rightarrow> q\<lparr>procs := (procs q)(k \<mapsto> Completed)\<rparr>
      | Some a \<Rightarrow> lane_loop k a q)"

text \<open>\<open>_drain\<close>: the \<open>for\<close> loop over the entries of \<open>_lanes\<close>, with its \<open>break\<close> and \<open>continue\<close>.\<close>

fun drain_loop :: "(key \<times> addr) list \<Rightarrow> kq \<Rightarrow> kq" where
  "drain_loop [] q = q"
| "drain_loop ((k, a) # es) q =
     (if concurrency q \<le> int (length (activeLanes q)) then q
      else if k \<in> set (activeLanes q) \<or> arrays q a = [] then drain_loop es q
      else drain_loop es (processLane k (q\<lparr>activeLanes := activeLanes q @ [k]\<rparr>)))"

definition drain :: "kq \<Rightarrow> kq" where
  "drain q = drain_loop (lanes q) q"

definition enqueue ::
  "nat \<Rightarrow> string option \<Rightarrow> key option \<Rightarrow> callback option \<Rightarrow> callback option \<Rightarrow> kq \<Rightarrow> bool \<times> kq" where
  "enqueue t lab ky onS onF q =
     (let lbl = or_default lab ''task''; k = or_default ky ''default'' in
      if maxSize q \<le> totalItems q then
        (False, try_cb onF (Some (Error ''Queue full - backpressure'')) q)
      else
        let (a, q1) = (case map_of (lanes q) k of
                         Some a \<Rightarrow> (a, q)
                       | None \<Rightarrow> (nextAddr q,
                                  q\<lparr>lanes := lanes q @ [(k, nextAddr q)],
                                    arrays := (arrays q)(nextAddr q := []),
                                    nextAddr := Suc (nextAddr q)\<rparr>));
            it = \<lparr>uid = nextUid q1, task = t, label = lbl, retries = 0,
                  onSuccess = onS, onFailure = onF\<rparr>;
            q2 = q1\<lparr>arrays := (arrays q1)(a := arrays q1 a @ [it]),
                    nextUid := Suc (nextUid q1),
                    trace := trace q1 @ [Enqueued k (uid it)]\<rparr>;
            q3 = q2\<lparr>totalItems := totalItems q2 + 1\<rparr>
        in (True, drain q3))"

datatype outcome = Resolved | Rejected jserror

text \<open>The continuation of \<open>await item.task()\<close>: the \<open>try\<close> body or the \<open>catch\<close> block.\<close>

definition on_settle :: "key \<Rightarrow> addr \<Rightarrow> item \<Rightarrow> outcome \<Rightarrow> kq \<Rightarrow> kq" where
  "on_settle k a it out q =
     (case out of
        Resolved \<Rightarrow>
          lane_loop k a
            (try_cb (onSuccess it) None
               (q\<lparr>processed := processed q + 1,
                  trace := trace q @ [TaskSucceeded k (uid it)]\<rparr>))
      | Rejected err \<Rightarrow>
          if int (retries it) < maxRetries q then
            (let it' = it\<lparr>retries := retries it + 1\<rparr>;
                 d = retryDelay q * 2 ^ (retries it' - 1)
             in q\<lparr>procs := (procs q)(k \<mapsto> AwaitingTimer a it' d),
                  trace := trace q @ [TimerSet k (uid it') d]\<rparr>)
          else
            lane_loop k a
              (try_cb (onFailure it) (Some err)
                 (q\<lparr>failed := failed q + 1,
                    trace := trace q @ [TaskFailed k (uid it) err]\<rparr>)))"

text \<open>The continuation of the backoff \<open>await\<close>: \<open>items.unshift(item); this._totalItems++\<close>, then the loop.\<close>

definition on_timeout :: "key \<Rightarrow> addr \<Rightarrow> item \<Rightarrow> kq \<Rightarrow> kq" where
  "on_timeout k a it q =
     lane_loop k a
       (q\<lparr>arrays := (arrays q)(a := it # arrays q a),
          totalItems := totalItems q + 1\<rparr>)"

text \<open>The \<open>.finally\<close> callback registered by \<open>_drain\<close>.\<close>

definition on_finally :: "key \<Rightarrow> kq \<Rightarrow> kq" where
  "on_finally k q =
     (let q1 = q\<lparr>activeLanes := removeAll k (activeLanes q), procs := (procs q)(k := None)\<rparr>;
          q2 = (case map_of (lanes q1) k of
                  Some a \<Rightarrow>
                    if arrays q1 a = [] then q1\<lparr>lanes := filter (\<lambda>e. fst e \<noteq> k) (lanes q1)\<rparr>
                    else q1
                | None \<Rightarrow> q1)
      in drain q2)"

text \<open>
  What the environment can do: call \<open>enqueue\<close>, settle the task a lane awaits, fire the
  backoff timer a lane awaits, run a pending \<open>.finally\<close> callback. A transition that is
  not enabled has no successor.
\<close>

datatype action =
    Enqueue nat "string option" "key option" "callback option" "callback option"
  | Settle key outcome
  | Timeout key
  | Finally key

fun step :: "action \<Rightarrow> kq \<Rightarrow> kq option" where
  "step (Enqueue t lab ky onS onF) q = Some (snd (enqueue t lab ky onS onF q))"
| "step (Settle k out) q =
     (case procs q k of
        Some (AwaitingTask a it) \<Rightarrow> Some (on_settle k a it out q)
      | _ \<Rightarrow> None)"
| "step (Timeout k) q =
     (case procs q k of
        Some (AwaitingTimer a it d) \<Rightarrow> Some (on_timeout k a it q)
      | _ \<Rightarrow> None)"
| "step (Finally k) q =
     (case procs q k of
        Some Completed \<Rightarrow> Some (on_finally k q)
      | _ \<Rightarrow> None)"

fun run :: "action list \<Rightarrow> kq \<Rightarrow> kq option" where
  "run [] q = Some q"
| "run (x # xs) q = (case step x q of None \<Rightarrow> None | Some q' \<Rightarrow> run xs q')"

subsection \<open>What a trace says about one lane, and the invariant of the queue\<close>

text \<open>
  \<open>enqueued k\<close>, \<open>starts k\<close> and \<open>finished k\<close> are the items admitted to lane \<open>k\<close>,
  the task calls made for lane \<open>k\<close> and the items of lane \<open>k\<close> that completed
  (resolved, or rejected with no retry left), each in the order of the trace;
  \<open>timers u\<close> is the list of backoff delays requested for item \<open>u\<close>.
\<close>

text \<open>The items waiting in the lane of a key: the array the map holds for it.\<close>

definition lane_of :: "(key \<times> addr) list \<Rightarrow> (addr \<Rightarrow> item list) \<Rightarrow> key \<Rightarrow> item list" where
  "lane_of ls ar k = (case map_of ls k of None \<Rightarrow> [] | Some a \<Rightarrow> ar a)"

text \<open>The item a suspended lane processor has in hand, and the array it captured.\<close>

fun running :: "phase option \<Rightarrow> item list" where
  "running (Some (AwaitingTask a it)) = [it]"
| "running (Some (AwaitingTimer a it d)) = [it]"
| "running _ = []"

fun held :: "phase option \<Rightarrow> addr option" where
  "held (Some (AwaitingTask a it)) = Some a"
| "held (Some (AwaitingTimer a it d)) = Some a"
| "held _ = None"

text \<open>
  Shape of the state: keys and array addresses of the map are distinct and allocated, the
  active set is the set of keys with a lane processor, and a processor that holds an
  item captured the array the map still holds for its key.
\<close>

definition wf_q :: "kq \<Rightarrow> bool" where
  "wf_q q \<longleftrightarrow>
     distinct (map fst (lanes q)) \<and> distinct (map snd (lanes q)) \<and>
     (\<forall>e \<in> set (lanes q). snd e < nextAddr q) \<and>
     (\<forall>k. (procs q k \<noteq> None) = (k \<in> set (activeLanes q))) \<and>
     (\<forall>k a. held (procs q k) = Some a \<longrightarrow> map_of (lanes q) k = Some a)"

fun enq_pairs :: "event list \<Rightarrow> (key \<times> nat) list" where
  "enq_pairs [] = []"
| "enq_pairs (Enqueued k u # es) = (k, u) # enq_pairs es"
| "enq_pairs (e # es) = enq_pairs es"

definition enqueued :: "key \<Rightarrow> event list \<Rightarrow> nat list" where
  "enqueued k tr = map snd (filter (\<lambda>p. fst p = k) (enq_pairs tr))"

fun starts :: "key \<Rightarrow> event list \<Rightarrow> nat list" where
  "starts k [] = []"
| "starts k (TaskStarted k' u # es) = (if k' = k then u # starts k es else starts k es)"
| "starts k (e # es) = starts k es"

fun finished :: "key \<Rightarrow> event list \<Rightarrow> nat list" where
  "finished k [] = []"
| "finished k (TaskSucceeded k' u # es) = (if k' = k then u # finished k es else finished k es)"
| "finished k (TaskFailed k' u err # es) = (if k' = k then u # finished k es else finished k es)"
| "finished k (e # es) = finished k es"

fun timers :: "nat \<Rightarrow> event list \<Rightarrow> int list" where
  "timers u [] = []"
| "timers u (TimerSet k u' d # es) = (if u' = u then d # timers u es else timers u es)"
| "timers u (e # es) = timers u es"

text \<open>
  \<open>no_restart k fin tr\<close>: no task start of lane \<open>k\<close> in \<open>tr\<close> is for an item that completed
  earlier (\<open>fin\<close> are the items that completed before \<open>tr\<close>).
\<close>

fun no_restart :: "key \<Rightarrow> nat list \<Rightarrow> event list \<Rightarrow> bool" where
  "no_restart k fin [] = True"
| "no_restart k fin (TaskStarted k' u # es) = ((k' = k \<longrightarrow> u \<notin> set fin) \<and> no_restart k fin es)"
| "no_restart k fin (e # es) = no_restart k (fin @ finished k [e]) es"

text \<open>
  The invariant of one lane: the items admitted under the key are, in order, those that
  completed, the one in hand, and those waiting in the array; the task starts, with
  repeats collapsed, are the completed items and the one in hand; the retry counter of a
  live item is the number of its backoff timers; no completed item was started again.
\<close>

definition key_ok :: "kq \<Rightarrow> key \<Rightarrow> bool" where
  "key_ok q k \<longleftrightarrow>
     finished k (trace q) @ map uid (running (procs q k) @ lane_of (lanes q) (arrays q) k)
       = enqueued k (trace q) \<and>
     remdups_adj (starts k (trace q)) = finished k (trace q) @ map uid (running (procs q k)) \<and>
     (\<forall>it \<in> set (running (procs q k) @ lane_of (lanes q) (arrays q) k).
        retries it = length (timers (uid it) (trace q))) \<and>
     no_restart k [] (trace q)"

text \<open>Item identities are allocated once each, below \<open>nextUid\<close>.\<close>

definition uids_ok :: "kq \<Rightarrow> bool" where
  "uids_ok q \<longleftrightarrow>
     distinct (map snd (enq_pairs (trace q))) \<and>
     (\<forall>u \<in> set (map snd (enq_pairs (trace q))). u < nextUid q)"

text \<open>\<open>_totalItems\<close> is the number of items waiting in the arrays of the map.\<close>

definition count_ok :: "kq \<Rightarrow> bool" where
  "count_ok q \<longleftrightarrow> totalItems q = (\<Sum>e\<leftarrow>lanes q. int (length (arrays q (snd e))))"

text \<open>The delays of retry attempts 1 to \<open>n\<close> for base delay \<open>d\<close>.\<close>

definition backoffs :: "int \<Rightarrow> nat \<Rightarrow> int list" where
  "backoffs d n = map (\<lambda>i. d * 2 ^ (i - 1)) [1..<Suc n]"

definition timers_ok :: "kq \<Rightarrow> bool" where
  "timers_ok q \<longleftrightarrow>
     (\<forall>u. timers u (trace q) = backoffs (retryDelay q) (length (timers u (trace q))) \<and>
          (timers u (trace q) \<noteq> [] \<longrightarrow>
             int (length (timers u (trace q))) \<le> maxRetries q \<and>
             u \<in> snd ` set (enq_pairs (trace q))))"

definition qinv :: "kq \<Rightarrow> bool" where
  "qinv q \<longleftrightarrow> wf_q q \<and> uids_ok q \<and> count_ok q \<and> timers_ok q \<and> (\<forall>k. key_ok q k)"

text \<open>The fields the constructor sets and no method changes.\<close>

definition config :: "kq \<Rightarrow> string \<times> int \<times> int \<times> int \<times> int" where
  "config q = (name q, concurrency q, maxSize q, maxRetries q, retryDelay q)"

subsection \<open>Scenarios\<close>

definition no_opts :: opts where
  "no_opts = \<lparr>opt_concurrency = None, opt_maxSize = None, opt_retries = None, opt_retryDelay = None\<rparr>"

definition retry_scenario :: "action list" where
  "retry_scenario =
     [Enqueue 1 (Some ''t1'') (Some ''A'') None None,
      Enqueue 2 (Some ''t2'') (Some ''A'') None None,
      Enqueue 3 (Some ''t3'') (Some ''A'') None None,
      Settle ''A'' (Rejected (Error ''flaky'')),
      Timeout ''A'',
      Settle ''A'' (Rejected (Error ''flaky'')),
      Timeout ''A'',
      Settle ''A'' Resolved,
      Settle ''A'' Resolved,
      Settle ''A'' Resolved]"

definition retry_final :: kq where
  "retry_final = the (run retry_scenario (KeyedConcurrentQueue ''Q'' no_opts))"

definition small_opts :: opts where
  "small_opts = \<lparr>opt_concurrency = None, opt_maxSize = Some 2, opt_retries = None, opt_retryDelay = None\<rparr>"

definition two_slow :: kq where
  "two_slow = the (run [Enqueue 1 (Some ''slow1'') (Some ''A'') None None,
                        Enqueue 2 (Some ''slow2'') (Some ''B'') None None]
                       (KeyedConcurrentQueue ''Q'' small_opts))"

definition narrow_opts :: opts where
  "narrow_opts = \<lparr>opt_concurrency = Some 1, opt_maxSize = Some 2, opt_retries = None, opt_retryDelay = None\<rparr>"

definition fill_scenario :: "action list" where
  "fill_scenario = [Enqueue 1 (Some ''slow1'') (Some ''A'') None None,
                    Enqueue 2 (Some ''slow2'') (Some ''B'') None None,
                    Enqueue 3 (Some ''slow3'') (Some ''C'') None None]"

definition full_queue :: kq where
  "full_queue = the (run fill_scenario (KeyedConcurrentQueue ''Q'' narrow_opts))"

definition probe :: callback where
  "probe = \<lparr>cb_id = 7, cb_throws = True\<rparr>"

definition exhaust_opts :: opts where
  "exhaust_opts = \<lparr>opt_concurrency = None, opt_maxSize = None, opt_retries = Some 1, opt_retryDelay = None\<rparr>"

definition exhaust_prefix :: "action list" where
  "exhaust_prefix =
     [Enqueue 1 (Some ''t1'') (Some ''A'') None (Some probe),
      Enqueue 2 (Some ''t2'') (Some ''A'') None None,
      Settle ''A'' (Rejected (Error ''down'')),
      Timeout ''A'']"

definition exhaust_q :: kq where
  "exhaust_q = the (run exhaust_prefix (KeyedConcurrentQueue ''Q'' exhaust_opts))"

definition exhaust_item :: item where
  "exhaust_item = \<lparr>uid = 0, task = 1, label = ''t1'', retries = 1,
                    onSuccess = None, onFailure = Some probe\<rparr>"

definition exhaust_rest :: "action list" where
  "exhaust_rest = [Settle ''A'' Resolved, Finally ''A'']"

definition exhaust_later :: kq where
  "exhaust_later =
     the (run exhaust_rest (on_settle ''A'' 0 exhaust_item (Rejected (Error ''down'')) exhaust_q))"

section \<open>The attendance submission pipeline\<close>

text \<open>
  \<open>POST /api/attendance/submit\<close> (routes/attendance.routes.js) with the services it calls:
  \<open>SessionService\<close> (services/session.service.js), \<open>AntiCheatingService\<close>
  (services/anticheating.service.js) and the SQLite store (services/store.service.js,
  services/database.js). The database is a record of its tables; every store function
  takes the store and returns the new one. The only \<open>await\<close> of the handler is on
  \<open>validateSubmission\<close>, which has no \<open>await\<close> of its own: a handler runs to its
  response without yielding to another request, so one submission is one function call.

  Values that may be absent (\<open>undefined\<close>, \<open>null\<close>, SQL \<open>NULL\<close>) are options. JavaScript
  treats \<open>0\<close> and the empty string as false in \<open>!x\<close>, \<open>x || y\<close> and \<open>x && y\<close>: \<open>truthy_num\<close> and
  \<open>truthy_str\<close> say when a value counts as present. Coordinates are JSON numbers.
\<close>

definition truthy_num :: "real option \<Rightarrow> bool" where
  "truthy_num v = (case v of None \<Rightarrow> False | Some x \<Rightarrow> x \<noteq> 0)"

definition truthy_str :: "string option \<Rightarrow> bool" where
  "truthy_str v = (case v of None \<Rightarrow> False | Some s \<Rightarrow> s \<noteq> [])"

record location =
  lat :: "real option"
  lng :: "real option"

text \<open>\<open>!loc || !loc.lat || !loc.lng\<close> is false exactly when \<open>usable loc\<close> is \<open>Some\<close>.\<close>

definition usable :: "location option \<Rightarrow> location option" where
  "usable loc =
     (case loc of
        None \<Rightarrow> None
      | Some p \<Rightarrow> if truthy_num (lat p) \<and> truthy_num (lng p) then Some p else None)"

text \<open>The strings built for \<open>reason\<close> and \<open>details\<close>, by the template that builds them.\<close>

datatype reason =
    NoLocationData
  | NoClassroomLocation
  | StudentTooFar int int
  | WithinGeofence
  | DeviceAlreadyUsedBy "string list"
  | NoDuplicatesFound

record location_result =
  valid :: bool
  distance :: int
  reason :: reason

text \<open>
  The two values \<open>AntiCheatingService\<close> takes from outside this repository:
  \<open>geolib.getDistance\<close> (metres between two points, a whole number that is not negative)
  and \<open>config.defaultGeofenceRadius\<close>.
\<close>

record env =
  getDistance :: "location \<Rightarrow> location \<Rightarrow> nat"
  defaultGeofenceRadius :: int

text \<open>\<open>radius || config.defaultGeofenceRadius\<close>.\<close>

definition radius_or_default :: "env \<Rightarrow> int option \<Rightarrow> int" where
  "radius_or_default ev radius =
     (case radius of
        None \<Rightarrow> defaultGeofenceRadius ev
      | Some r \<Rightarrow> if r = 0 then defaultGeofenceRadius ev else r)"

definition validateLocation ::
  "env \<Rightarrow> location option \<Rightarrow> location option \<Rightarrow> int option \<Rightarrow> location_result" where
  "validateLocation ev studentLocation classroomLocation radius =
     (case usable studentLocation of
        None \<Rightarrow> \<lparr>valid = False, distance = - 1, reason = NoLocationData\<rparr>
      | Some s \<Rightarrow>
          (case usable classroomLocation of
             None \<Rightarrow> \<lparr>valid = True, distance = 0, reason = NoClassroomLocation\<rparr>
           | Some c \<Rightarrow>
               (let d = int (getDistance ev s c);
                    geofenceRadius = radius_or_default ev radius
                in \<lparr>valid = (d \<le> geofenceRadius), distance = d,
                     reason = (if geofenceRadius < d then StudentTooFar d geofenceRadius
                               else WithinGeofence)\<rparr>)))"

record violation =
  vtype :: string
  details :: reason
  vdistance :: int

text \<open>A row of the \<open>attendance\<close> table, as \<open>deserializeAttendance\<close> returns it.\<close>

record attendance_record =
  rowid :: nat
  sessionId :: string
  studentName :: string
  email :: string
  ipAddress :: "string option"
  macAddress :: "string option"
  latitude :: "real option"
  longitude :: "real option"
  timestamp :: int
  status :: string
  violations :: "violation list"
  synced :: bool

text \<open>A row of the \<open>sessions\<close> table, with the columns the submission path reads or writes.\<close>

record session =
  teacherId :: string
  classroomLocation :: "location option"
  geofenceRadius :: "int option"
  spreadsheetId :: "string option"
  expiresAt :: int
  isActive :: bool
  attendeeCount :: nat

record store =
  sessions :: "string \<Rightarrow> session option"
  session_attendees :: "(string \<times> string) list"
  attendance :: "attendance_record list"
  next_rowid :: nat

definition getSession :: "store \<Rightarrow> string \<Rightarrow> session option" where
  "getSession st sessionId' = sessions st sessionId'"

definition deactivateSession :: "string \<Rightarrow> store \<Rightarrow> store" where
  "deactivateSession sessionId' st =
     (case sessions st sessionId' of
        None \<Rightarrow> st
      | Some s \<Rightarrow> st\<lparr>sessions := (sessions st)(sessionId' \<mapsto> s\<lparr>isActive := False\<rparr>)\<rparr>)"

datatype session_check = Invalid string | Valid session

text \<open>\<open>SessionService.isSessionValid\<close>; \<open>now\<close> is \<open>new Date()\<close> in milliseconds.\<close>

definition isSessionValid :: "int \<Rightarrow> string \<Rightarrow> store \<Rightarrow> session_check \<times> store" where
  "isSessionValid now sessionId' st =
     (case getSession st sessionId' of
        None \<Rightarrow> (Invalid ''Session not found'', st)
      | Some s \<Rightarrow>
          if \<not> isActive s then (Invalid ''Session is no longer active'', st)
          else if expiresAt s < now then (Invalid ''Session has expired'', deactivateSession sessionId' st)
          else (Valid s, st))"

text \<open>\<open>hasSessionAttendee\<close>: \<open>SELECT 1 FROM session_attendees WHERE session_id = ? AND email = ?\<close>.\<close>

definition hasSessionAttendee :: "store \<Rightarrow> string \<Rightarrow> string \<Rightarrow> bool" where
  "hasSessionAttendee st sessionId' email' = ((sessionId', email') \<in> set (session_attendees st))"

text \<open>\<open>addSessionAttendee\<close>: \<open>INSERT OR IGNORE\<close>, then the attendee count of the session is refreshed.\<close>

definition addSessionAttendee :: "string \<Rightarrow> string \<Rightarrow> store \<Rightarrow> store" where
  "addSessionAttendee sessionId' email' st =
     (let rows = (if (sessionId', email') \<in> set (session_attendees st) then session_attendees st
                  else session_attendees st @ [(sessionId', email')]);
          n = length (filter (\<lambda>p. fst p = sessionId') rows);
          st1 = st\<lparr>session_attendees := rows\<rparr>
      in case sessions st1 sessionId' of
           None \<Rightarrow> st1
         | Some s \<Rightarrow> st1\<lparr>sessions := (sessions st1)(sessionId' \<mapsto> s\<lparr>attendeeCount := n\<rparr>)\<rparr>)"

text \<open>
  \<open>addAttendanceRecord\<close>: \<open>serializeAttendance\<close> stores \<open>NULL\<close> for a falsy address, the row
  gets the next id and \<open>synced = 0\<close>.
\<close>

definition addAttendanceRecord :: "attendance_record \<Rightarrow> store \<Rightarrow> nat \<times> store" where
  "addAttendanceRecord r st =
     (next_rowid st,
      st\<lparr>attendance := attendance st @
            [r\<lparr>rowid := next_rowid st,
               ipAddress := (if truthy_str (ipAddress r) then ipAddress r else None),
               macAddress := (if truthy_str (macAddress r) then macAddress r else None),
               synced := False\<rparr>],
         next_rowid := Suc (next_rowid st)\<rparr>)"

definition getAttendanceStore :: "store \<Rightarrow> attendance_record list" where
  "getAttendanceStore st = attendance st"

record duplicate_result =
  isDuplicate :: bool
  duplicateOf :: "string list"
  dreason :: reason

definition checkDuplicateDevice ::
  "store \<Rightarrow> string \<Rightarrow> string option \<Rightarrow> string option \<Rightarrow> duplicate_result" where
  "checkDuplicateDevice st sessionId' ipAddress' macAddress' =
     (let sessionRecords = filter (\<lambda>r. sessionId r = sessionId') (getAttendanceStore st);
          duplicates = filter (\<lambda>r. (truthy_str ipAddress' \<and> ipAddress r = ipAddress') \<or>
                                     (truthy_str macAddress' \<and> macAddress r = macAddress'))
                              sessionRecords
      in if 0 < length duplicates then
           \<lparr>isDuplicate = True, duplicateOf = map email duplicates,
             dreason = DeviceAlreadyUsedBy (map studentName duplicates)\<rparr>
         else \<lparr>isDuplicate = False, duplicateOf = [], dreason = NoDuplicatesFound\<rparr>)"

record validation_result =
  isValid :: bool
  vr_violations :: "violation list"
  locationResult :: location_result
  duplicateResult :: duplicate_result

text \<open>
  \<open>validateSubmission\<close>. Its calls of \<open>logViolation\<close> push onto the array that
  \<open>getCheatingStore\<close> has just read from the database and then call \<open>saveCheatingStore\<close>,
  which is empty: they leave the store as it is, so the function only reads the store.
\<close>

definition validateSubmission ::
  "env \<Rightarrow> store \<Rightarrow> string \<Rightarrow> string \<Rightarrow> string \<Rightarrow> string option \<Rightarrow> string option \<Rightarrow>
   location option \<Rightarrow> location option \<Rightarrow> int option \<Rightarrow> validation_result" where
  "validateSubmission ev st sessionId' studentName' email' ipAddress' macAddress'
       studentLocation classroomLocation' geofenceRadius' =
     (let locationRes = validateLocation ev studentLocation classroomLocation' geofenceRadius';
          v1 = (if \<not> valid locationRes \<and> 0 \<le> distance locationRes then
                  [\<lparr>vtype = ''Location Violation'', details = reason locationRes,
                     vdistance = distance locationRes\<rparr>]
                else []);
          duplicateRes = checkDuplicateDevice st sessionId' ipAddress' macAddress';
          v2 = (if isDuplicate duplicateRes then
                  [\<lparr>vtype = ''Duplicate Device'', details = dreason duplicateRes,
                     vdistance = (if 0 \<le> distance locationRes then distance locationRes else 0)\<rparr>]
                else []);
          vs = v1 @ v2
      in \<lparr>isValid = (length vs = 0), vr_violations = vs,
           locationResult = locationRes, duplicateResult = duplicateRes\<rparr>)"

text \<open>
  The request: the fields of \<open>req.body\<close> the handler reads, and the address it derives from
  the headers and the socket. The validators in front of the handler make \<open>sessionId\<close>,
  \<open>studentName\<close> and \<open>email\<close> non-empty.
\<close>

record request =
  body_sessionId :: string
  body_studentName :: string
  body_email :: string
  body_macAddress :: "string option"
  body_latitude :: "real option"
  body_longitude :: "real option"
  req_ipAddress :: "string option"

record response =
  success :: bool
  message :: string

text \<open>\<open>macAddress || 'N/A'\<close>.\<close>

definition mac_or_na :: "string option \<Rightarrow> string option" where
  "mac_or_na m = (if truthy_str m then m else Some ''N/A'')"

text \<open>\<open>latitude || 'N/A'\<close>; \<open>None\<close> stands for the text \<open>N/A\<close> in the row.\<close>

definition num_or_na :: "real option \<Rightarrow> real option" where
  "num_or_na v = (if truthy_num v then v else None)"

text \<open>
  The handler. Its \<open>catch\<close> block (status 500) is entered only when a store call
  throws, which the store functions of the model never do. It returns the response, the
  store and the calls of
  \<open>attendanceQueue.enqueue\<close> it makes after responding, as actions for the queue: the
  mirror task of record \<open>n\<close> is task \<open>2 * n\<close> and carries the \<open>onSuccess\<close> callback
  \<open>markAttendanceSynced(n)\<close>, its violation log is task \<open>2 * n + 1\<close>.
\<close>

definition submit :: "env \<Rightarrow> request \<Rightarrow> int \<Rightarrow> store \<Rightarrow> response \<times> store \<times> action list" where
  "submit ev req now st =
     (case isSessionValid now (body_sessionId req) st of
        (Invalid why, st1) \<Rightarrow>
          (\<lparr>success = True, message = ''Attendance submitted successfully''\<rparr>, st1, [])
      | (Valid sess, st1) \<Rightarrow>
          if hasSessionAttendee st1 (body_sessionId req) (body_email req) then
            (\<lparr>success = True, message = ''Attendance already recorded''\<rparr>, st1, [])
          else
            (let validationResult =
                   validateSubmission ev st1 (body_sessionId req) (body_studentName req)
                     (body_email req) (req_ipAddress req) (mac_or_na (body_macAddress req))
                     (if truthy_num (body_latitude req) \<and> truthy_num (body_longitude req)
                      then Some \<lparr>lat = body_latitude req, lng = body_longitude req\<rparr> else None)
                     (classroomLocation sess) (geofenceRadius sess);
                 record = \<lparr>rowid = 0, sessionId = body_sessionId req,
                            studentName = body_studentName req, email = body_email req,
                            ipAddress = req_ipAddress req,
                            macAddress = mac_or_na (body_macAddress req),
                            latitude = num_or_na (body_latitude req),
                            longitude = num_or_na (body_longitude req),
                            timestamp = now,
                            status = (if isValid validationResult then ''PRESENT'' else ''FLAGGED''),
                            violations = vr_violations validationResult,
                            synced = False\<rparr>;
                 (recordId, st2) = addAttendanceRecord record st1;
                 st3 = addSessionAttendee (body_sessionId req) (body_email req) st2;
                 calls =
                   (if truthy_str (spreadsheetId sess) then
                      Enqueue (2 * recordId)
                        (Some (''attendance-'' @ body_sessionId req @ ''-'' @ body_email req))
                        (Some (body_sessionId req))
                        (Some \<lparr>cb_id = recordId, cb_throws = False\<rparr>) None
                      # (if \<not> isValid validationResult then
                           [Enqueue (2 * recordId + 1)
                              (Some (''violation-'' @ body_sessionId req @ ''-'' @ body_email req))
                              (Some (''violations-'' @ teacherId sess)) None None]
                         else [])
                    else [])
             in (\<lparr>success = True, message = ''Attendance submitted successfully''\<rparr>, st3, calls)))"

text \<open>One submission after another, each with its arrival time.\<close>

fun submit_all :: "env \<Rightarrow> (request \<times> int) list \<Rightarrow> store \<Rightarrow> store" where
  "submit_all ev [] st = st"
| "submit_all ev ((req, now) # rest) st = submit_all ev rest (fst (snd (submit ev req now st)))"

subsection \<open>Derived notions and sample data for the pipeline\<close>

text \<open>The row an accepted submission writes.\<close>

definition new_record :: "env \<Rightarrow> request \<Rightarrow> int \<Rightarrow> store \<Rightarrow> session \<Rightarrow> attendance_record" where
  "new_record ev req now st sess =
     (let validationResult =
            validateSubmission ev st (body_sessionId req) (body_studentName req)
              (body_email req) (req_ipAddress req) (mac_or_na (body_macAddress req))
              (if truthy_num (body_latitude req) \<and> truthy_num (body_longitude req)
               then Some \<lparr>lat = body_latitude req, lng = body_longitude req\<rparr> else None)
              (classroomLocation sess) (geofenceRadius sess)
      in \<lparr>rowid = next_rowid st, sessionId = body_sessionId req,
           studentName = body_studentName req, email = body_email req,
           ipAddress = (if truthy_str (req_ipAddress req) then req_ipAddress req else None),
           macAddress = mac_or_na (body_macAddress req),
           latitude = num_or_na (body_latitude req),
           longitude = num_or_na (body_longitude req),
           timestamp = now,
           status = (if isValid validationResult then ''PRESENT'' else ''FLAGGED''),
           violations = vr_violations validationResult,
           synced = False\<rparr>)"

definition records_of :: "store \<Rightarrow> string \<Rightarrow> string \<Rightarrow> attendance_record list" where
  "records_of st sid em = filter (\<lambda>r. sessionId r = sid \<and> email r = em) (attendance st)"

definition demo_env :: env where
  "demo_env = \<lparr>getDistance = (\<lambda>a b. 100), defaultGeofenceRadius = 100\<rparr>"

definition far_env :: env where
  "far_env = \<lparr>getDistance = (\<lambda>a b. 101), defaultGeofenceRadius = 100\<rparr>"

definition classroom :: location where
  "classroom = \<lparr>lat = Some 36.7, lng = Some 3.05\<rparr>"

definition demo_session :: session where
  "demo_session = \<lparr>teacherId = ''t1'', classroomLocation = Some classroom,
                    geofenceRadius = Some 100, spreadsheetId = Some ''sheet1'',
                    expiresAt = 1000, isActive = True, attendeeCount = 0\<rparr>"

definition demo_store :: store where
  "demo_store = \<lparr>sessions = (\<lambda>_. None)(''s1'' \<mapsto> demo_session), session_attendees = [],
                  attendance = [], next_rowid = 1\<rparr>"

definition amina :: request where
  "amina = \<lparr>body_sessionId = ''s1'', body_studentName = ''Amina'', body_email = ''amina@univ.dz'',
             body_macAddress = None, body_latitude = Some 36.7001, body_longitude = Some 3.05,
             req_ipAddress = Some ''10.0.0.1''\<rparr>"

definition bilal :: request where
  "bilal = \<lparr>body_sessionId = ''s1'', body_studentName = ''Bilal'', body_email = ''bilal@univ.dz'',
             body_macAddress = None, body_latitude = None, body_longitude = None,
             req_ipAddress = Some ''10.0.0.2''\<rparr>"

definition ghost :: request where
  "ghost = \<lparr>body_sessionId = ''nope'', body_studentName = ''Amina'', body_email = ''amina@univ.dz'',
             body_macAddress = None, body_latitude = None, body_longitude = None,
             req_ipAddress = Some ''10.0.0.1''\<rparr>"

definition student_here :: location where
  "student_here = \<lparr>lat = Some 36.7001, lng = Some 3.05\<rparr>"





definition after_amina :: store where
  "after_amina = fst (snd (submit demo_env amina 10 demo_store))"

definition amina_twice :: store where
  "amina_twice = submit_all demo_env [(amina, 10), (amina, 20)] demo_store"

section \<open>Proofs about the queue\<close>

lemma enq_pairs_append [simp]: "enq_pairs (xs @ ys) = enq_pairs xs @ enq_pairs ys"
  by (induction xs rule: enq_pairs.induct) simp_all

lemma enqueued_append [simp]: "enqueued k (xs @ ys) = enqueued k xs @ enqueued k ys"
  by (simp add: enqueued_def)

lemma starts_append [simp]: "starts k (xs @ ys) = starts k xs @ starts k ys"
  by (induction k xs rule: starts.induct) simp_all

lemma finished_append [simp]: "finished k (xs @ ys) = finished k xs @ finished k ys"
  by (induction k xs rule: finished.induct) simp_all

lemma timers_append [simp]: "timers u (xs @ ys) = timers u xs @ timers u ys"
  by (induction u xs rule: timers.induct) simp_all

lemma no_restart_append:
  "no_restart k fin (xs @ ys) = (no_restart k fin xs \<and> no_restart k (fin @ finished k xs) ys)"
  by (induction k fin xs rule: no_restart.induct) simp_all

lemma no_restart_snoc [simp]:
  "no_restart k [] (tr @ [e]) =
     (no_restart k [] tr \<and> (\<forall>u. e = TaskStarted k u \<longrightarrow> u \<notin> set (finished k tr)))"
  by (cases e) (auto simp: no_restart_append)

lemma enqueued_simps [simp]:
  "enqueued k [] = []"
  "enqueued k [Enqueued k' u] = (if k' = k then [u] else [])"
  "enqueued k [TaskStarted k' u] = []"
  "enqueued k [TaskSucceeded k' u] = []"
  "enqueued k [TaskFailed k' u err] = []"
  "enqueued k [TimerSet k' u d] = []"
  "enqueued k [CallbackInvoked c x] = []"
  by (simp_all add: enqueued_def)

lemma enqueued_subset: "set (enqueued k tr) \<subseteq> snd ` set (enq_pairs tr)"
  by (auto simp: enqueued_def)

lemma enqueued_distinct: "distinct (map snd (enq_pairs tr)) \<Longrightarrow> distinct (enqueued k tr)"
  by (simp add: enqueued_def distinct_map_filter)

lemma enqueued_disjoint:
  assumes "distinct (map snd (enq_pairs tr))" "u \<in> set (enqueued k tr)" "u \<in> set (enqueued k' tr)"
  shows "k = k'"
proof -
  from assms(2) have a: "(k, u) \<in> set (enq_pairs tr)" by (auto simp: enqueued_def)
  from assms(3) have b: "(k', u) \<in> set (enq_pairs tr)" by (auto simp: enqueued_def)
  from assms(1) have "inj_on snd (set (enq_pairs tr))" by (simp add: distinct_map)
  from inj_onD[OF this _ a b] show ?thesis by simp
qed

lemma backoffs_Suc: "backoffs d (Suc n) = backoffs d n @ [d * 2 ^ n]"
  by (simp add: backoffs_def)

lemma backoffs_0 [simp]: "backoffs d 0 = []"
  by (simp add: backoffs_def)

lemma lane_addr_inj:
  assumes "distinct (map snd ls)" "map_of ls k = Some a" "map_of ls k' = Some a"
  shows "k = k'"
proof -
  from assms(2) have a: "(k, a) \<in> set ls" by (rule map_of_SomeD)
  from assms(3) have b: "(k', a) \<in> set ls" by (rule map_of_SomeD)
  from assms(1) have "inj_on snd (set ls)" by (simp add: distinct_map)
  from inj_onD[OF this _ a b] show ?thesis by simp
qed

lemma lane_of_upd:
  assumes "distinct (map snd ls)" "map_of ls k = Some a"
  shows "lane_of ls (ar(a := v)) k' = (if k' = k then v else lane_of ls ar k')"
proof (cases "k' = k")
  case True
  with assms show ?thesis by (simp add: lane_of_def)
next
  case False
  show ?thesis
  proof (cases "map_of ls k'")
    case None
    with False show ?thesis by (simp add: lane_of_def)
  next
    case (Some a')
    have "a' \<noteq> a"
    proof
      assume "a' = a"
      with Some lane_addr_inj[OF assms(1) assms(2), of k'] False show False by simp
    qed
    with False Some show ?thesis by (simp add: lane_of_def)
  qed
qed

lemma lane_of_Some: "map_of ls k = Some a \<Longrightarrow> lane_of ls ar k = ar a"
  by (simp add: lane_of_def)

lemma sum_lanes_upd:
  assumes "distinct (map snd ls)" "(k, a) \<in> set ls"
  shows "(\<Sum>e\<leftarrow>ls. int (length ((ar(a := v)) (snd e)))) =
         (\<Sum>e\<leftarrow>ls. int (length (ar (snd e)))) - int (length (ar a)) + int (length v)"
  using assms
proof (induction ls)
  case Nil
  then show ?case by simp
next
  case (Cons e ls)
  show ?case
  proof (cases "e = (k, a)")
    case True
    with Cons.prems have "a \<notin> snd ` set ls" by auto
    then have "(\<Sum>e\<leftarrow>ls. int (length ((ar(a := v)) (snd e)))) = (\<Sum>e\<leftarrow>ls. int (length (ar (snd e))))"
      by (induction ls) auto
    with True show ?thesis by simp
  next
    case False
    with Cons.prems have in_ls: "(k, a) \<in> set ls" and d: "distinct (map snd ls)" by auto
    from in_ls have "a \<in> snd ` set ls" by force
    with Cons.prems(1) have "snd e \<noteq> a" by auto
    with Cons.IH[OF d in_ls] show ?thesis by simp
  qed
qed

lemma remdups_adj_snoc:
  "remdups_adj (xs @ [x]) = (if xs \<noteq> [] \<and> last xs = x then remdups_adj xs else remdups_adj xs @ [x])"
  by (induction xs rule: remdups_adj.induct) auto

lemma start_next:
  assumes "remdups_adj ss = fs" "u \<notin> set fs"
  shows "remdups_adj (ss @ [u]) = fs @ [u]"
proof (cases "ss = []")
  case True
  with assms show ?thesis by simp
next
  case False
  then have "last ss = last (remdups_adj ss)" by simp
  also have "\<dots> \<in> set fs" using False assms(1) by (metis last_in_set remdups_adj_Nil_iff)
  finally have "last ss \<noteq> u" using assms(2) by auto
  with assms(1) show ?thesis by (simp add: remdups_adj_snoc)
qed

lemma restart_same:
  assumes "remdups_adj ss = fs @ [u]"
  shows "remdups_adj (ss @ [u]) = fs @ [u]"
proof -
  from assms have ne: "ss \<noteq> []" by auto
  then have "last ss = last (remdups_adj ss)" by simp
  with assms have "last ss = u" by simp
  with ne assms show ?thesis by (simp add: remdups_adj_snoc)
qed

lemma lane_loop_fields [simp]:
  "lanes (lane_loop k a q) = lanes q"
  "activeLanes (lane_loop k a q) = activeLanes q"
  "nextAddr (lane_loop k a q) = nextAddr q"
  "nextUid (lane_loop k a q) = nextUid q"
  "concurrency (lane_loop k a q) = concurrency q"
  "maxSize (lane_loop k a q) = maxSize q"
  "maxRetries (lane_loop k a q) = maxRetries q"
  "retryDelay (lane_loop k a q) = retryDelay q"
  "processed (lane_loop k a q) = processed q"
  "failed (lane_loop k a q) = failed q"
  "name (lane_loop k a q) = name q"
  by (simp_all add: lane_loop_def split: list.splits)

lemma try_cb_fields [simp]:
  "lanes (try_cb c x q) = lanes q"
  "activeLanes (try_cb c x q) = activeLanes q"
  "nextAddr (try_cb c x q) = nextAddr q"
  "nextUid (try_cb c x q) = nextUid q"
  "concurrency (try_cb c x q) = concurrency q"
  "maxSize (try_cb c x q) = maxSize q"
  "maxRetries (try_cb c x q) = maxRetries q"
  "retryDelay (try_cb c x q) = retryDelay q"
  "processed (try_cb c x q) = processed q"
  "failed (try_cb c x q) = failed q"
  "name (try_cb c x q) = name q"
  "arrays (try_cb c x q) = arrays q"
  "procs (try_cb c x q) = procs q"
  "totalItems (try_cb c x q) = totalItems q"
  by (simp_all add: try_cb_def call_cb_def split: option.splits)

lemma try_cb_trace:
  "trace (try_cb c x q) = trace q @ (case c of None \<Rightarrow> [] | Some cb \<Rightarrow> [CallbackInvoked (cb_id cb) x])"
  by (simp add: try_cb_def call_cb_def split: option.splits)

lemma try_cb_proj [simp]:
  "enq_pairs (trace (try_cb c x q)) = enq_pairs (trace q)"
  "starts k (trace (try_cb c x q)) = starts k (trace q)"
  "finished k (trace (try_cb c x q)) = finished k (trace q)"
  "timers u (trace (try_cb c x q)) = timers u (trace q)"
  "enqueued k (trace (try_cb c x q)) = enqueued k (trace q)"
  by (simp_all add: try_cb_trace enqueued_def split: option.splits)

text \<open>The invariant only reads these fields.\<close>

lemma qinv_cong:
  assumes "lanes q' = lanes q" "arrays q' = arrays q" "procs q' = procs q"
    "activeLanes q' = activeLanes q" "nextAddr q' = nextAddr q" "nextUid q' = nextUid q"
    "totalItems q' = totalItems q" "retryDelay q' = retryDelay q" "maxRetries q' = maxRetries q"
    "enq_pairs (trace q') = enq_pairs (trace q)"
    "\<And>k. starts k (trace q') = starts k (trace q)"
    "\<And>k. finished k (trace q') = finished k (trace q)"
    "\<And>u. timers u (trace q') = timers u (trace q)"
    "\<And>k. no_restart k [] (trace q') = no_restart k [] (trace q)"
  shows "qinv q' = qinv q"
  using assms by (simp add: qinv_def wf_q_def uids_ok_def count_ok_def timers_ok_def key_ok_def enqueued_def)

lemma try_cb_no_restart [simp]:
  "no_restart k [] (trace (try_cb c x q)) = no_restart k [] (trace q)"
  by (simp add: try_cb_trace split: option.splits)

lemma qinv_try_cb [simp]: "qinv (try_cb c x q) = qinv q"
  by (rule qinv_cong) simp_all

text \<open>Starting the head of a lane whose processor holds no item.\<close>

lemma qinv_pop:
  assumes inv: "qinv q" and idle: "running (procs q k) = []" and act: "k \<in> set (activeLanes q)"
    and lane: "map_of (lanes q) k = Some a" and hd: "arrays q a = it # rest"
  shows "qinv (q\<lparr>arrays := (arrays q)(a := rest), totalItems := totalItems q - 1,
                 procs := (procs q)(k \<mapsto> AwaitingTask a it),
                 trace := trace q @ [TaskStarted k (uid it)]\<rparr>)" (is "qinv ?q'")
proof -
  from inv have wf: "wf_q q" and uo: "uids_ok q" and co: "count_ok q" and to: "timers_ok q"
    and ko: "\<And>k. key_ok q k" by (simp_all add: qinv_def)
  from wf have d2: "distinct (map snd (lanes q))" by (simp add: wf_q_def)
  have lo: "\<And>k'. lane_of (lanes q) ((arrays q)(a := rest)) k' = (if k' = k then rest else lane_of (lanes q) (arrays q) k')"
    by (rule lane_of_upd[OF d2 lane])
  have lk: "lane_of (lanes q) (arrays q) k = it # rest"
    using lane hd by (simp add: lane_of_Some)
  have wf': "wf_q ?q'" using wf act lane by (auto simp: wf_q_def)
  have uo': "uids_ok ?q'" using uo by (simp add: uids_ok_def)
  have co': "count_ok ?q'"
    using co sum_lanes_upd[OF d2 map_of_SomeD[OF lane], of "arrays q" rest] hd
    by (simp add: count_ok_def)
  have to': "timers_ok ?q'" using to by (simp add: timers_ok_def)
  have ko': "key_ok ?q' k'" for k'
  proof (cases "k' = k")
    case False
    with ko[of k'] show ?thesis by (simp add: key_ok_def lo)
  next
    case True
    from ko[of k] idle lk have e1: "finished k (trace q) @ uid it # map uid rest = enqueued k (trace q)"
      and e2: "remdups_adj (starts k (trace q)) = finished k (trace q)"
      and e3: "\<forall>x \<in> set (it # rest). retries x = length (timers (uid x) (trace q))"
      and e4: "no_restart k [] (trace q)"
      by (simp_all add: key_ok_def)
    from uo have "distinct (enqueued k (trace q))" by (simp add: uids_ok_def enqueued_distinct)
    with e1[symmetric] have nf: "uid it \<notin> set (finished k (trace q))" by auto
    from start_next[OF e2 nf] e1 e3 e4 nf True show ?thesis by (simp add: key_ok_def lo)
  qed
  from wf' uo' co' to' ko' show ?thesis by (simp add: qinv_def)
qed

lemma key_items_enqueued:
  assumes "key_ok q k" "x \<in> set (running (procs q k) @ lane_of (lanes q) (arrays q) k)"
  shows "uid x \<in> set (enqueued k (trace q))"
proof -
  from assms(1) have "enqueued k (trace q) =
      finished k (trace q) @ map uid (running (procs q k) @ lane_of (lanes q) (arrays q) k)"
    by (simp add: key_ok_def)
  with assms(2) show ?thesis by auto
qed

text \<open>The item a lane processor holds completes (its task resolved, or its retries are used up).\<close>

lemma qinv_complete:
  assumes inv: "qinv q" and run: "procs q k = Some (AwaitingTask a it)"
    and same: "lanes q' = lanes q" "arrays q' = arrays q" "activeLanes q' = activeLanes q"
      "nextAddr q' = nextAddr q" "nextUid q' = nextUid q" "totalItems q' = totalItems q"
      "retryDelay q' = retryDelay q" "maxRetries q' = maxRetries q"
    and pr: "procs q' = (procs q)(k \<mapsto> Completed)"
    and tr: "enq_pairs (trace q') = enq_pairs (trace q)"
      "\<And>k'. starts k' (trace q') = starts k' (trace q)"
      "\<And>u. timers u (trace q') = timers u (trace q)"
      "\<And>k'. finished k' (trace q') = finished k' (trace q) @ (if k' = k then [uid it] else [])"
      "\<And>k'. no_restart k' [] (trace q') = no_restart k' [] (trace q)"
  shows "qinv q'"
proof -
  from inv have wf: "wf_q q" and uo: "uids_ok q" and co: "count_ok q" and to: "timers_ok q"
    and ko: "\<And>k. key_ok q k" by (simp_all add: qinv_def)
  have wf': "wf_q q'" using wf run same pr by (auto simp: wf_q_def)
  have uo': "uids_ok q'" using uo same tr by (simp add: uids_ok_def)
  have co': "count_ok q'" using co same by (simp add: count_ok_def)
  have to': "timers_ok q'" using to same tr by (simp add: timers_ok_def)
  have ko': "key_ok q' k'" for k'
  proof (cases "k' = k")
    case True
    with ko[of k] run same pr tr show ?thesis by (simp add: key_ok_def enqueued_def)
  next
    case False
    with ko[of k'] same pr tr show ?thesis by (simp add: key_ok_def enqueued_def)
  qed
  from wf' uo' co' to' ko' show ?thesis by (simp add: qinv_def)
qed

text \<open>A rejected task with retries left: the counter goes up and the backoff timer is set.\<close>

lemma qinv_retry:
  assumes inv: "qinv q" and run: "procs q k = Some (AwaitingTask a it)"
    and more: "int (retries it) < maxRetries q"
  shows "qinv (q\<lparr>procs := (procs q)(k \<mapsto> AwaitingTimer a (it\<lparr>retries := retries it + 1\<rparr>)
                                         (retryDelay q * 2 ^ (retries (it\<lparr>retries := retries it + 1\<rparr>) - 1))),
                 trace := trace q @ [TimerSet k (uid (it\<lparr>retries := retries it + 1\<rparr>))
                                         (retryDelay q * 2 ^ (retries (it\<lparr>retries := retries it + 1\<rparr>) - 1))]\<rparr>)"
    (is "qinv ?q'")
proof -
  from inv have wf: "wf_q q" and uo: "uids_ok q" and co: "count_ok q" and to: "timers_ok q"
    and ko: "\<And>k. key_ok q k" by (simp_all add: qinv_def)
  from uo have dist: "distinct (map snd (enq_pairs (trace q)))" by (simp add: uids_ok_def)
  from ko[of k] run have n: "retries it = length (timers (uid it) (trace q))"
    by (simp add: key_ok_def)
  from key_items_enqueued[OF ko[of k], of it] run
  have mine: "uid it \<in> set (enqueued k (trace q))" by simp
  have wf': "wf_q ?q'" using wf run by (auto simp: wf_q_def)
  have uo': "uids_ok ?q'" using uo by (simp add: uids_ok_def)
  have co': "count_ok ?q'" using co by (simp add: count_ok_def)
  have to': "timers_ok ?q'"
    unfolding timers_ok_def
  proof (intro allI)
    fix u
    show "timers u (trace ?q') = backoffs (retryDelay ?q') (length (timers u (trace ?q'))) \<and>
          (timers u (trace ?q') \<noteq> [] \<longrightarrow>
             int (length (timers u (trace ?q'))) \<le> maxRetries ?q' \<and>
             u \<in> snd ` set (enq_pairs (trace ?q')))"
    proof (cases "u = uid it")
      case True
      from to have "timers u (trace q) = backoffs (retryDelay q) (length (timers u (trace q)))"
        by (simp add: timers_ok_def)
      moreover from mine enqueued_subset have "uid it \<in> snd ` set (enq_pairs (trace q))" by blast
      ultimately show ?thesis using True n more by (simp add: backoffs_Suc)
    next
      case False
      with to show ?thesis by (simp add: timers_ok_def)
    qed
  qed
  have ko': "key_ok ?q' k'" for k'
  proof -
    have other: "uid it \<noteq> uid x"
      if "x \<in> set (lane_of (lanes q) (arrays q) k') \<or> (k' \<noteq> k \<and> x \<in> set (running (procs q k')))" for x
    proof -
      have "uid x \<noteq> uid it"
      proof (cases "k' = k")
        case True
        with that have "x \<in> set (lane_of (lanes q) (arrays q) k)" by simp
        then have xl: "uid x \<in> set (map uid (lane_of (lanes q) (arrays q) k))" by simp
        from ko[of k] run have "enqueued k (trace q) =
            finished k (trace q) @ uid it # map uid (lane_of (lanes q) (arrays q) k)"
          by (simp add: key_ok_def)
        moreover from dist have "distinct (enqueued k (trace q))" by (rule enqueued_distinct)
        ultimately show ?thesis using xl by auto
      next
        case False
        from that have "x \<in> set (running (procs q k') @ lane_of (lanes q) (arrays q) k')" by auto
        from key_items_enqueued[OF ko[of k'] this] enqueued_disjoint[OF dist _ mine, of k'] False
        show ?thesis by auto
      qed
      then show ?thesis by simp
    qed
    show ?thesis
    proof (cases "k' = k")
      case True
      with ko[of k] run n other show ?thesis by (auto simp: key_ok_def)
    next
      case False
      with ko[of k'] other show ?thesis by (auto simp: key_ok_def)
    qed
  qed
  from wf' uo' co' to' ko' show ?thesis by (simp add: qinv_def)
qed

text \<open>The backoff timer fires: the item goes back to the front and is shifted out again.\<close>

lemma on_timeout_eq:
  "on_timeout k a it q =
     q\<lparr>arrays := (arrays q)(a := arrays q a), totalItems := totalItems q + 1 - 1,
       procs := (procs q)(k \<mapsto> AwaitingTask a it),
       trace := trace q @ [TaskStarted k (uid it)]\<rparr>"
  by (simp add: on_timeout_def lane_loop_def)

lemma qinv_timeout:
  assumes inv: "qinv q" and run: "procs q k = Some (AwaitingTimer a it d)"
  shows "qinv (on_timeout k a it q)"
proof -
  let ?q' = "on_timeout k a it q"
  from inv have wf: "wf_q q" and uo: "uids_ok q" and co: "count_ok q" and to: "timers_ok q"
    and ko: "\<And>k. key_ok q k" by (simp_all add: qinv_def)
  have wf': "wf_q ?q'" using wf run by (auto simp: wf_q_def on_timeout_eq)
  have uo': "uids_ok ?q'" using uo by (simp add: uids_ok_def on_timeout_eq)
  have co': "count_ok ?q'" using co by (simp add: count_ok_def on_timeout_eq)
  have to': "timers_ok ?q'" using to by (simp add: timers_ok_def on_timeout_eq)
  have ko': "key_ok ?q' k'" for k'
  proof (cases "k' = k")
    case True
    from ko[of k] run have e: "remdups_adj (starts k (trace q)) = finished k (trace q) @ [uid it]"
      and e1: "finished k (trace q) @ uid it # map uid (lane_of (lanes q) (arrays q) k) = enqueued k (trace q)"
      by (simp_all add: key_ok_def)
    from uo have "distinct (enqueued k (trace q))" by (simp add: uids_ok_def enqueued_distinct)
    with e1[symmetric] have nf: "uid it \<notin> set (finished k (trace q))" by auto
    from restart_same[OF e] ko[of k] run True nf show ?thesis
      by (simp add: key_ok_def on_timeout_eq)
  next
    case False
    with ko[of k'] show ?thesis by (simp add: key_ok_def on_timeout_eq)
  qed
  from wf' uo' co' to' ko' show ?thesis by (simp add: qinv_def)
qed

lemma lane_loop_reset: "lane_loop k a (q\<lparr>procs := (procs q)(k \<mapsto> p)\<rparr>) = lane_loop k a q"
  by (simp add: lane_loop_def split: list.splits)

text \<open>The loop test of \<open>_processLane\<close>, reached with no item in hand.\<close>

lemma qinv_lane_loop:
  assumes inv: "qinv q" and idle: "procs q k = Some Completed"
    and lane: "map_of (lanes q) k = Some a"
  shows "qinv (lane_loop k a q)"
proof (cases "arrays q a")
  case Nil
  from idle have "(procs q)(k \<mapsto> Completed) = procs q" by (rule fun_upd_idem)
  with Nil inv show ?thesis by (simp add: lane_loop_def)
next
  case (Cons it rest)
  from inv idle have "k \<in> set (activeLanes q)" by (auto simp: qinv_def wf_q_def)
  from qinv_pop[OF inv _ this lane Cons] idle Cons show ?thesis
    by (simp add: lane_loop_def)
qed

lemma qinv_on_settle:
  assumes inv: "qinv q" and run: "procs q k = Some (AwaitingTask a it)"
  shows "qinv (on_settle k a it out q)"
proof -
  from inv run have lane: "map_of (lanes q) k = Some a" by (simp add: qinv_def wf_q_def)
  have fin: "qinv (lane_loop k a q1)"
    if f: "lanes q1 = lanes q" "arrays q1 = arrays q" "activeLanes q1 = activeLanes q"
      "nextAddr q1 = nextAddr q" "nextUid q1 = nextUid q" "totalItems q1 = totalItems q"
      "retryDelay q1 = retryDelay q" "maxRetries q1 = maxRetries q" "procs q1 = procs q"
      and t: "enq_pairs (trace q1) = enq_pairs (trace q)"
      "\<And>k'. starts k' (trace q1) = starts k' (trace q)"
      "\<And>u. timers u (trace q1) = timers u (trace q)"
      "\<And>k'. finished k' (trace q1) = finished k' (trace q) @ (if k' = k then [uid it] else [])"
      "\<And>k'. no_restart k' [] (trace q1) = no_restart k' [] (trace q)"
    for q1
  proof -
    let ?q2 = "q1\<lparr>procs := (procs q1)(k \<mapsto> Completed)\<rparr>"
    have a: "qinv ?q2"
      by (rule qinv_complete[OF inv run]) (simp_all add: f t)
    have b: "procs ?q2 k = Some Completed" by simp
    have c: "map_of (lanes ?q2) k = Some a" using lane f by simp
    from qinv_lane_loop[OF a b c] show ?thesis by (simp only: lane_loop_reset)
  qed
  show ?thesis
  proof (cases out)
    case Resolved
    have "qinv (lane_loop k a (try_cb (onSuccess it) None
            (q\<lparr>processed := processed q + 1, trace := trace q @ [TaskSucceeded k (uid it)]\<rparr>)))"
      by (rule fin) simp_all
    with Resolved show ?thesis by (simp add: on_settle_def)
  next
    case (Rejected err)
    show ?thesis
    proof (cases "int (retries it) < maxRetries q")
      case True
      from qinv_retry[OF inv run True] Rejected True show ?thesis
        by (simp add: on_settle_def Let_def)
    next
      case False
      have "qinv (lane_loop k a (try_cb (onFailure it) (Some err)
              (q\<lparr>failed := failed q + 1, trace := trace q @ [TaskFailed k (uid it) err]\<rparr>)))"
        by (rule fin) simp_all
      with Rejected False show ?thesis by (simp add: on_settle_def)
    qed
  qed
qed

text \<open>\<open>_drain\<close> admits a lane: \<open>_activeLanes.add(key)\<close>, then \<open>_processLane(key)\<close> up to its first \<open>await\<close>.\<close>

lemma qinv_admit:
  assumes inv: "qinv q" and free: "k \<notin> set (activeLanes q)" and lane: "map_of (lanes q) k = Some a"
  shows "qinv (processLane k (q\<lparr>activeLanes := activeLanes q @ [k]\<rparr>))"
proof -
  let ?q1 = "q\<lparr>activeLanes := activeLanes q @ [k], procs := (procs q)(k \<mapsto> Completed)\<rparr>"
  from inv have wf: "wf_q q" and uo: "uids_ok q" and co: "count_ok q" and to: "timers_ok q"
    and ko: "\<And>k. key_ok q k" by (simp_all add: qinv_def)
  from wf free have none: "procs q k = None" by (auto simp: wf_q_def)
  have wf': "wf_q ?q1" using wf none by (auto simp: wf_q_def)
  have uo': "uids_ok ?q1" using uo by (simp add: uids_ok_def)
  have co': "count_ok ?q1" using co by (simp add: count_ok_def)
  have to': "timers_ok ?q1" using to by (simp add: timers_ok_def)
  have ko': "key_ok ?q1 k'" for k'
    using ko[of k'] none by (cases "k' = k") (simp_all add: key_ok_def)
  from wf' uo' co' to' ko' have a: "qinv ?q1" by (simp add: qinv_def)
  have b: "procs ?q1 k = Some Completed" by simp
  have c: "map_of (lanes ?q1) k = Some a" using lane by simp
  from qinv_lane_loop[OF a b c]
  have "qinv (lane_loop k a ?q1)" .
  moreover have "lane_loop k a ?q1 = lane_loop k a (q\<lparr>activeLanes := activeLanes q @ [k]\<rparr>)"
    using lane_loop_reset[of k a "q\<lparr>activeLanes := activeLanes q @ [k]\<rparr>" Completed] by simp
  ultimately show ?thesis using lane by (simp add: processLane_def)
qed

lemma processLane_lanes [simp]: "lanes (processLane k q) = lanes q"
  by (simp add: processLane_def split: option.splits)

lemma qinv_drain_loop:
  assumes "qinv q" "set es \<subseteq> set (lanes q)"
  shows "qinv (drain_loop es q)"
  using assms
proof (induction es q rule: drain_loop.induct)
  case (1 q)
  then show ?case by simp
next
  case (2 k a es q)
  from "2.prems" have d: "distinct (map fst (lanes q))" by (simp add: qinv_def wf_q_def)
  from "2.prems" have "(k, a) \<in> set (lanes q)" by simp
  with d have lane: "map_of (lanes q) k = Some a" by simp
  show ?case
  proof (cases "concurrency q \<le> int (length (activeLanes q))")
    case True
    with "2.prems" show ?thesis by simp
  next
    case full: False
    show ?thesis
    proof (cases "k \<in> set (activeLanes q) \<or> arrays q a = []")
      case True
      with full "2.IH"(1) "2.prems" show ?thesis by simp
    next
      case False
      then have free: "k \<notin> set (activeLanes q)" by simp
      from qinv_admit[OF "2.prems"(1) free lane] "2.IH"(2)[OF full False] "2.prems"(2) full False
      show ?thesis by simp
    qed
  qed
qed

lemma qinv_drain: "qinv q \<Longrightarrow> qinv (drain q)"
  by (simp add: drain_def qinv_drain_loop)

lemma map_of_snoc:
  "map_of (ls @ [(k, a)]) k' = (case map_of ls k' of Some x \<Rightarrow> Some x | None \<Rightarrow> if k' = k then Some a else None)"
  by (simp add: map_add_def split: option.splits)

lemma lane_of_new:
  assumes "map_of ls k = None" "\<forall>e \<in> set ls. snd e \<noteq> na"
  shows "lane_of (ls @ [(k, na)]) (ar(na := v)) k' = (if k' = k then v else lane_of ls ar k')"
proof (cases "map_of ls k'")
  case None
  with assms show ?thesis by (simp add: lane_of_def map_of_snoc del: map_of_append)
next
  case (Some a')
  then have "(k', a') \<in> set ls" by (rule map_of_SomeD)
  with assms(2) have "a' \<noteq> na" by auto
  moreover from Some assms(1) have "k' \<noteq> k" by auto
  ultimately show ?thesis using Some by (simp add: lane_of_def map_of_snoc del: map_of_append)
qed

lemma sum_lanes_new:
  assumes "\<forall>e \<in> set ls. snd e \<noteq> na"
  shows "(\<Sum>e\<leftarrow>ls. int (length ((ar(na := v)) (snd e)))) = (\<Sum>e\<leftarrow>ls. int (length (ar (snd e))))"
  using assms by (induction ls) auto

lemma map_of_drop_key:
  "map_of (filter (\<lambda>e. fst e \<noteq> k) ls) k' = (if k' = k then None else map_of ls k')"
  by (induction ls) auto

lemma sum_lanes_drop:
  assumes "\<forall>e \<in> set ls. fst e = k \<longrightarrow> f e = (0::int)"
  shows "(\<Sum>e\<leftarrow>filter (\<lambda>e. fst e \<noteq> k) ls. f e) = (\<Sum>e\<leftarrow>ls. f e)"
  using assms by (induction ls) auto

lemma fresh_uid_no_timers:
  assumes "uids_ok q" "timers_ok q"
  shows "timers (nextUid q) (trace q) = []"
proof (rule ccontr)
  assume "timers (nextUid q) (trace q) \<noteq> []"
  with assms(2) have "nextUid q \<in> snd ` set (enq_pairs (trace q))" by (simp add: timers_ok_def)
  with assms(1) show False by (auto simp: uids_ok_def)
qed

text \<open>\<open>enqueue\<close> pushes onto the array of an existing lane.\<close>

lemma qinv_push_old:
  assumes inv: "qinv q" and lane: "map_of (lanes q) k = Some a" and it: "uid it = nextUid q" "retries it = 0"
  shows "qinv (q\<lparr>arrays := (arrays q)(a := arrays q a @ [it]), nextUid := Suc (nextUid q),
                 trace := trace q @ [Enqueued k (nextUid q)], totalItems := totalItems q + 1\<rparr>)"
    (is "qinv ?q'")
proof -
  from inv have wf: "wf_q q" and uo: "uids_ok q" and co: "count_ok q" and to: "timers_ok q"
    and ko: "\<And>k. key_ok q k" by (simp_all add: qinv_def)
  from wf have d2: "distinct (map snd (lanes q))" by (simp add: wf_q_def)
  note lo = lane_of_upd[OF d2 lane]
  have lk: "lane_of (lanes q) (arrays q) k = arrays q a" using lane by (simp add: lane_of_Some)
  note nt = fresh_uid_no_timers[OF uo to]
  have wf': "wf_q ?q'" using wf by (simp add: wf_q_def)
  have uo': "uids_ok ?q'" using uo by (auto simp: uids_ok_def)
  have co': "count_ok ?q'"
    using co sum_lanes_upd[OF d2 map_of_SomeD[OF lane], of "arrays q" "arrays q a @ [it]"]
    by (simp add: count_ok_def)
  have to': "timers_ok ?q'" using to by (auto simp: timers_ok_def)
  have ko': "key_ok ?q' k'" for k'
    using ko[of k'] lk it nt by (cases "k' = k") (simp_all add: key_ok_def lo)
  from wf' uo' co' to' ko' show ?thesis by (simp add: qinv_def)
qed

text \<open>\<open>enqueue\<close> creates the lane first.\<close>

lemma qinv_push_new:
  assumes inv: "qinv q" and lane: "map_of (lanes q) k = None" and it: "uid it = nextUid q" "retries it = 0"
  shows "qinv (q\<lparr>lanes := lanes q @ [(k, nextAddr q)], nextAddr := Suc (nextAddr q),
                 arrays := (arrays q)(nextAddr q := [it]), nextUid := Suc (nextUid q),
                 trace := trace q @ [Enqueued k (nextUid q)], totalItems := totalItems q + 1\<rparr>)"
    (is "qinv ?q'")
proof -
  from inv have wf: "wf_q q" and uo: "uids_ok q" and co: "count_ok q" and to: "timers_ok q"
    and ko: "\<And>k. key_ok q k" by (simp_all add: qinv_def)
  from wf have fresh: "\<forall>e \<in> set (lanes q). snd e \<noteq> nextAddr q" by (auto simp: wf_q_def)
  note lo = lane_of_new[OF lane fresh]
  from lane have lk: "lane_of (lanes q) (arrays q) k = []" by (simp add: lane_of_def)
  from lane have nk: "k \<notin> fst ` set (lanes q)" by (simp add: map_of_eq_None_iff)
  note nt = fresh_uid_no_timers[OF uo to]
  have held': "map_of (lanes q @ [(k, nextAddr q)]) k' = Some a'"
    if "held (procs q k') = Some a'" for k' a'
  proof -
    from wf that have "map_of (lanes q) k' = Some a'" by (simp add: wf_q_def)
    then show ?thesis by (simp add: map_of_snoc del: map_of_append)
  qed
  have wf': "wf_q ?q'"
    unfolding wf_q_def
  proof (intro conjI)
    show "distinct (map fst (lanes ?q'))" using wf nk by (simp add: wf_q_def)
    show "distinct (map snd (lanes ?q'))" using wf fresh by (auto simp: wf_q_def)
    show "\<forall>e\<in>set (lanes ?q'). snd e < nextAddr ?q'" using wf by (auto simp: wf_q_def)
    show "\<forall>k. (procs ?q' k \<noteq> None) = (k \<in> set (activeLanes ?q'))" using wf by (simp add: wf_q_def)
    show "\<forall>k a. held (procs ?q' k) = Some a \<longrightarrow> map_of (lanes ?q') k = Some a"
      using held' by simp
  qed
  have uo': "uids_ok ?q'" using uo by (auto simp: uids_ok_def)
  have co': "count_ok ?q'" using co sum_lanes_new[OF fresh, of "arrays q" "[it]"] by (simp add: count_ok_def)
  have to': "timers_ok ?q'" using to by (auto simp: timers_ok_def)
  have ko': "key_ok ?q' k'" for k'
    using ko[of k'] lk it nt by (cases "k' = k") (simp_all add: key_ok_def lo)
  from wf' uo' co' to' ko' show ?thesis by (simp add: qinv_def)
qed

lemma qinv_enqueue:
  assumes inv: "qinv q"
  shows "qinv (snd (enqueue t lab ky onS onF q))"
proof (cases "maxSize q \<le> totalItems q")
  case True
  with inv show ?thesis by (simp add: enqueue_def Let_def)
next
  case False
  let ?k = "or_default ky ''default''"
  let ?it = "\<lparr>uid = nextUid q, task = t, label = or_default lab ''task'', retries = 0,
               onSuccess = onS, onFailure = onF\<rparr>"
  show ?thesis
  proof (cases "map_of (lanes q) ?k")
    case None
    from qinv_drain[OF qinv_push_new[OF inv None, of ?it]] None False
    show ?thesis by (simp add: enqueue_def Let_def)
  next
    case (Some a)
    from qinv_drain[OF qinv_push_old[OF inv Some, of ?it]] Some False
    show ?thesis by (simp add: enqueue_def Let_def)
  qed
qed

text \<open>The \<open>.finally\<close> callback: the slot is released, an empty lane is deleted, \<open>_drain\<close> runs.\<close>

lemma qinv_on_finally:
  assumes inv: "qinv q" and fin: "procs q k = Some Completed"
  shows "qinv (on_finally k q)"
proof -
  let ?q1 = "q\<lparr>activeLanes := removeAll k (activeLanes q), procs := (procs q)(k := None)\<rparr>"
  from inv have wf: "wf_q q" and uo: "uids_ok q" and co: "count_ok q" and to: "timers_ok q"
    and ko: "\<And>k. key_ok q k" by (simp_all add: qinv_def)
  have wf1: "wf_q ?q1" using wf by (auto simp: wf_q_def)
  have uo1: "uids_ok ?q1" using uo by (simp add: uids_ok_def)
  have co1: "count_ok ?q1" using co by (simp add: count_ok_def)
  have to1: "timers_ok ?q1" using to by (simp add: timers_ok_def)
  have ko1: "key_ok ?q1 k'" for k'
    using ko[of k'] fin by (cases "k' = k") (simp_all add: key_ok_def)
  from wf1 uo1 co1 to1 ko1 have inv1: "qinv ?q1" by (simp add: qinv_def)
  have inv2: "qinv (?q1\<lparr>lanes := filter (\<lambda>e. fst e \<noteq> k) (lanes ?q1)\<rparr>)" (is "qinv ?q2")
    if lane: "map_of (lanes q) k = Some a" and empty: "arrays q a = []" for a
  proof -
    from wf have d1: "distinct (map fst (lanes q))" by (simp add: wf_q_def)
    have lo: "lane_of (filter (\<lambda>e. fst e \<noteq> k) (lanes q)) (arrays q) k' = lane_of (lanes q) (arrays q) k'" for k'
      using lane empty by (simp add: lane_of_def map_of_drop_key)
    have z: "\<forall>e \<in> set (lanes q). fst e = k \<longrightarrow> int (length (arrays q (snd e))) = 0"
    proof (intro ballI impI)
      fix e assume "e \<in> set (lanes q)" "fst e = k"
      then have "(k, snd e) \<in> set (lanes q)" by (metis prod.collapse)
      with d1 have "map_of (lanes q) k = Some (snd e)" by simp
      with lane empty show "int (length (arrays q (snd e))) = 0" by simp
    qed
    have wf2: "wf_q ?q2"
      unfolding wf_q_def
    proof (intro conjI)
      show "distinct (map fst (lanes ?q2))" using wf by (simp add: wf_q_def distinct_map_filter)
      show "distinct (map snd (lanes ?q2))" using wf by (simp add: wf_q_def distinct_map_filter)
      show "\<forall>e\<in>set (lanes ?q2). snd e < nextAddr ?q2" using wf by (auto simp: wf_q_def)
      show "\<forall>k'. (procs ?q2 k' \<noteq> None) = (k' \<in> set (activeLanes ?q2))" using wf1 by (simp add: wf_q_def)
      show "\<forall>k' a. held (procs ?q2 k') = Some a \<longrightarrow> map_of (lanes ?q2) k' = Some a"
        using wf1 by (auto simp: wf_q_def map_of_drop_key)
    qed
    have uo2: "uids_ok ?q2" using uo by (simp add: uids_ok_def)
    have co2: "count_ok ?q2" using co sum_lanes_drop[OF z] by (simp add: count_ok_def)
    have to2: "timers_ok ?q2" using to by (simp add: timers_ok_def)
    have ko2: "key_ok ?q2 k'" for k'
      using ko1[of k'] by (simp add: key_ok_def lo)
    from wf2 uo2 co2 to2 ko2 show ?thesis by (simp add: qinv_def)
  qed
  show ?thesis
  proof (cases "map_of (lanes q) k")
    case None
    with qinv_drain[OF inv1] show ?thesis by (simp add: on_finally_def Let_def)
  next
    case (Some a)
    show ?thesis
    proof (cases "arrays q a = []")
      case True
      from qinv_drain[OF inv2[OF Some True]] Some True show ?thesis
        by (simp add: on_finally_def Let_def)
    next
      case False
      with qinv_drain[OF inv1] Some show ?thesis by (simp add: on_finally_def Let_def)
    qed
  qed
qed

lemma qinv_step: "qinv q \<Longrightarrow> step x q = Some q' \<Longrightarrow> qinv q'"
  by (cases x)
     (auto simp: qinv_enqueue qinv_on_settle qinv_timeout qinv_on_finally
           split: option.splits phase.splits)

lemma qinv_run: "qinv q \<Longrightarrow> run xs q = Some q' \<Longrightarrow> qinv q'"
proof (induction xs arbitrary: q)
  case Nil
  then show ?case by simp
next
  case (Cons x xs)
  from Cons.prems(2) obtain q1 where s: "step x q = Some q1" and r: "run xs q1 = Some q'"
    by (auto split: option.splits)
  from qinv_step[OF Cons.prems(1) s] Cons.IH r show ?case by blast
qed

lemma qinv_init: "qinv (KeyedConcurrentQueue nm os)"
  by (simp add: qinv_def wf_q_def uids_ok_def count_ok_def timers_ok_def key_ok_def
        KeyedConcurrentQueue_def lane_of_def backoffs_def)

lemma config_lane_loop [simp]: "config (lane_loop k a q) = config q"
  by (simp add: config_def)

lemma config_try_cb [simp]: "config (try_cb c x q) = config q"
  by (simp add: config_def)

lemma config_processLane [simp]: "config (processLane k q) = config q"
  by (simp add: processLane_def config_def split: option.splits)

lemma config_upd [simp]:
  "config (q\<lparr>activeLanes := al\<rparr>) = config q"
  "config (q\<lparr>lanes := ls\<rparr>) = config q"
  "config (q\<lparr>arrays := ar\<rparr>) = config q"
  "config (q\<lparr>procs := pr\<rparr>) = config q"
  "config (q\<lparr>trace := tr\<rparr>) = config q"
  "config (q\<lparr>totalItems := n\<rparr>) = config q"
  "config (q\<lparr>processed := n\<rparr>) = config q"
  "config (q\<lparr>failed := n\<rparr>) = config q"
  "config (q\<lparr>nextAddr := m\<rparr>) = config q"
  "config (q\<lparr>nextUid := m\<rparr>) = config q"
  by (simp_all add: config_def)

lemma config_drain_loop [simp]: "config (drain_loop es q) = config q"
proof (induction es q rule: drain_loop.induct)
  case (1 q)
  show ?case by simp
next
  case (2 k a es q)
  then show ?case by simp
qed

lemma config_drain [simp]: "config (drain q) = config q"
  by (simp add: drain_def)

lemma config_enqueue [simp]: "config (snd (enqueue t lab ky onS onF q)) = config q"
  by (simp add: enqueue_def Let_def split: option.splits)

lemma config_on_settle [simp]: "config (on_settle k a it out q) = config q"
  by (simp add: on_settle_def Let_def split: outcome.splits)

lemma config_on_timeout [simp]: "config (on_timeout k a it q) = config q"
  by (simp add: on_timeout_def)

lemma config_on_finally [simp]: "config (on_finally k q) = config q"
  by (simp add: on_finally_def Let_def split: option.splits)

lemma config_step: "step x q = Some q' \<Longrightarrow> config q' = config q"
  by (cases x) (auto split: option.splits phase.splits)

lemma config_run: "run xs q = Some q' \<Longrightarrow> config q' = config q"
proof (induction xs arbitrary: q)
  case Nil
  then show ?case by simp
next
  case (Cons x xs)
  from Cons.prems obtain q1 where s: "step x q = Some q1" and r: "run xs q1 = Some q'"
    by (auto split: option.splits)
  from config_step[OF s] Cons.IH[OF r] show ?case by simp
qed

lemma reach_qinv: "run xs (KeyedConcurrentQueue nm os) = Some q \<Longrightarrow> qinv q"
  by (rule qinv_run[OF qinv_init])

lemma failed_in_finished: "TaskFailed k u err \<in> set xs \<Longrightarrow> u \<in> set (finished k xs)"
  by (induction k xs rule: finished.induct) auto

lemma no_restart_nth:
  assumes "no_restart k [] tr" "i < j" "j < length tr" "tr ! i = TaskFailed k u err"
  shows "tr ! j \<noteq> TaskStarted k u"
proof
  assume st: "tr ! j = TaskStarted k u"
  from assms(3) have "tr = take j tr @ tr ! j # drop (Suc j) tr" by (simp add: id_take_nth_drop)
  with assms(1) have "no_restart k [] (take j tr @ TaskStarted k u # drop (Suc j) tr)"
    using st by simp
  then have "u \<notin> set (finished k (take j tr))" by (simp add: no_restart_append)
  moreover from assms(2,3,4) have "TaskFailed k u err \<in> set (take j tr)"
    by (metis in_set_conv_nth length_take min_less_iff_conj nth_take order_less_trans)
  ultimately show False by (simp add: failed_in_finished)
qed

text \<open>
  Claim C1. Whatever the environment does (any calls of \<open>enqueue\<close>, any outcomes of the
  tasks, any interleaving of timers and \<open>.finally\<close> callbacks), the task calls made for
  one key follow the enqueue order of that key: with the repeated runs of a retried item
  collapsed, the sequence of task starts of key \<open>k\<close> is a prefix of the sequence of items
  admitted under \<open>k\<close>; items are distinct, so all runs of an item are contiguous; and
  every item but the last started one has completed (resolved, or rejected with no retry
  left) before a later item of the key started.
\<close>

theorem lane_fifo:
  assumes "run xs (KeyedConcurrentQueue nm os) = Some q"
  shows "prefix (remdups_adj (starts k (trace q))) (enqueued k (trace q)) \<and>
         distinct (enqueued k (trace q)) \<and>
         set (butlast (remdups_adj (starts k (trace q)))) \<subseteq> set (finished k (trace q))"
proof -
  from reach_qinv[OF assms] have ko: "key_ok q k" and uo: "uids_ok q" by (simp_all add: qinv_def)
  from ko have e1: "enqueued k (trace q) =
      finished k (trace q) @ map uid (running (procs q k)) @ map uid (lane_of (lanes q) (arrays q) k)"
    and e2: "remdups_adj (starts k (trace q)) = finished k (trace q) @ map uid (running (procs q k))"
    by (simp_all add: key_ok_def)
  have "prefix (remdups_adj (starts k (trace q))) (enqueued k (trace q))"
    unfolding e1 e2 by (simp add: prefix_def)
  moreover from uo have "distinct (enqueued k (trace q))"
    by (simp add: uids_ok_def enqueued_distinct)
  moreover have "set (butlast (remdups_adj (starts k (trace q)))) \<subseteq> set (finished k (trace q))"
    unfolding e2 by (cases "procs q k" rule: running.cases) (auto dest: in_set_butlastD)
  ultimately show ?thesis by simp
qed

text \<open>
  Claim C3. For every item \<open>u\<close> and every retry attempt \<open>n\<close> (counted from 1) that the
  queue has scheduled for it, the delay passed to the timer is
  \<open>retryDelay * 2 ^ (n - 1)\<close>, where \<open>retryDelay\<close> is the value the queue was built
  with, and \<open>n\<close> does not exceed the configured number of retries. The item is put back
  and its task called again only by the continuation of that timer (\<open>on_timeout\<close>).
\<close>

theorem backoff_schedule:
  assumes "run xs (KeyedConcurrentQueue nm os) = Some q"
    and "1 \<le> n" and "n \<le> length (timers u (trace q))"
  shows "timers u (trace q) ! (n - 1) = or_default (opt_retryDelay os) 1000 * 2 ^ (n - 1) \<and>
         int n \<le> or_default (opt_retries os) 2"
proof -
  from reach_qinv[OF assms(1)] have to: "timers_ok q" by (simp add: qinv_def)
  from config_run[OF assms(1)] have c: "retryDelay q = or_default (opt_retryDelay os) 1000"
    "maxRetries q = or_default (opt_retries os) 2"
    by (simp_all add: config_def KeyedConcurrentQueue_def)
  from to have a: "timers u (trace q) = backoffs (retryDelay q) (length (timers u (trace q)))"
    by (simp add: timers_ok_def)
  from assms(2,3) have ne: "timers u (trace q) \<noteq> []" by auto
  with to have b: "int (length (timers u (trace q))) \<le> maxRetries q" by (simp add: timers_ok_def)
  from assms(2,3) have "[1..<Suc (length (timers u (trace q)))] ! (n - 1) = 1 + (n - 1)"
    by (intro nth_upt) arith
  with assms(2,3) have "backoffs (retryDelay q) (length (timers u (trace q))) ! (n - 1)
      = retryDelay q * 2 ^ (n - 1)"
    by (simp add: backoffs_def del: upt_Suc)
  with a b c assms(3) show ?thesis by simp
qed

lemmas model_defs = KeyedConcurrentQueue_def or_default_def enqueue_def drain_def processLane_def
  lane_loop_def on_settle_def on_timeout_def on_finally_def try_cb_def call_cb_def Let_def

lemma retry_run: "run retry_scenario (KeyedConcurrentQueue ''Q'' no_opts) = Some retry_final"
  by (simp add: retry_final_def retry_scenario_def no_opts_def model_defs)

lemma retry_trace: "trace retry_final =
  [Enqueued ''A'' 0, TaskStarted ''A'' 0, Enqueued ''A'' 1, Enqueued ''A'' 2,
   TimerSet ''A'' 0 1000, TaskStarted ''A'' 0, TimerSet ''A'' 0 2000, TaskStarted ''A'' 0,
   TaskSucceeded ''A'' 0, TaskStarted ''A'' 1, TaskSucceeded ''A'' 1, TaskStarted ''A'' 2,
   TaskSucceeded ''A'' 2]"
  by (simp add: retry_final_def retry_scenario_def no_opts_def model_defs)

theorem lane_fifo_witness:
  "run retry_scenario (KeyedConcurrentQueue ''Q'' no_opts) = Some retry_final \<and>
   starts ''A'' (trace retry_final) = [0, 0, 0, 1, 2] \<and>
   enqueued ''A'' (trace retry_final) = [0, 1, 2] \<and>
   prefix (remdups_adj (starts ''A'' (trace retry_final))) (enqueued ''A'' (trace retry_final)) \<and>
   distinct (enqueued ''A'' (trace retry_final)) \<and>
   set (butlast (remdups_adj (starts ''A'' (trace retry_final)))) \<subseteq> set (finished ''A'' (trace retry_final))"
  using lane_fifo[OF retry_run, of "''A''"] retry_run
  by (simp add: retry_trace enqueued_def)

theorem backoff_schedule_witness:
  "run retry_scenario (KeyedConcurrentQueue ''Q'' no_opts) = Some retry_final \<and>
   timers 0 (trace retry_final) = [1000, 2000] \<and>
   (1::nat) \<le> 2 \<and> 2 \<le> length (timers 0 (trace retry_final)) \<and>
   timers 0 (trace retry_final) ! (2 - 1) = or_default (opt_retryDelay no_opts) 1000 * 2 ^ (2 - 1) \<and>
   int 2 \<le> or_default (opt_retries no_opts) 2"
proof -
  have n: "(1::nat) \<le> 2" by simp
  have l: "2 \<le> length (timers 0 (trace retry_final))" by (simp add: retry_trace)
  from backoff_schedule[OF retry_run n l] retry_run n l show ?thesis
    by (simp add: retry_trace)
qed

lemma two_slow_totalItems: "totalItems two_slow = 0"
  by (simp add: two_slow_def small_opts_def model_defs)

lemma two_slow_maxSize: "maxSize two_slow = 2"
  by (simp add: two_slow_def small_opts_def model_defs)

lemma two_slow_procs:
  "procs two_slow ''A'' \<noteq> None" "procs two_slow ''B'' \<noteq> None"
  by (simp_all add: two_slow_def small_opts_def model_defs)

text \<open>
  Claim C6, as stated, fails. The queue is built with \<open>maxSize = 2\<close> and the default
  concurrency 5; two slow tasks are enqueued under the keys \<open>A\<close> and \<open>B\<close> and neither has
  settled. Each was shifted out of its lane array when its lane started, which decremented
  \<open>_totalItems\<close>, so the count is 0 and the third \<open>enqueue\<close> returns true without calling
  \<open>onFailure\<close>.
\<close>

theorem third_enqueue_accepted:
  "fst (enqueue 3 (Some ''t3'') (Some ''C'') None (Some probe) two_slow) = True \<and>
   CallbackInvoked (cb_id probe) (Some (Error ''Queue full - backpressure''))
     \<notin> set (trace (snd (enqueue 3 (Some ''t3'') (Some ''C'') None (Some probe) two_slow)))"
  by (simp add: two_slow_def small_opts_def model_defs probe_def)

text \<open>
  Claim C2. Whenever \<open>_totalItems >= _maxSize\<close>, \<open>enqueue\<close> returns false and the queue is
  left as it was: lanes, lane arrays, active set, counters and suspended lane processors
  are unchanged, and the only effect is the synchronous call of \<open>onFailure\<close> (when one was
  supplied) with the error \<open>Queue full - backpressure\<close>. The result does not depend on
  whether the callback throws: the exception is caught, so \<open>enqueue\<close> itself never throws.
\<close>

theorem enqueue_rejects_when_full:
  assumes "maxSize q \<le> totalItems q"
  shows "enqueue t lab ky onS onF q =
           (False, case onF of
                     None \<Rightarrow> q
                   | Some cb \<Rightarrow> q\<lparr>trace := trace q @
                        [CallbackInvoked (cb_id cb) (Some (Error ''Queue full - backpressure''))]\<rparr>)"
  using assms by (simp add: enqueue_def Let_def try_cb_def call_cb_def split: option.splits)

lemma full_queue_run: "run fill_scenario (KeyedConcurrentQueue ''Q'' narrow_opts) = Some full_queue"
  by (simp add: full_queue_def fill_scenario_def narrow_opts_def model_defs)

lemma full_queue_fields:
  "maxSize full_queue = 2" "totalItems full_queue = 2"
  "lanes full_queue = [(''A'', 0), (''B'', 1), (''C'', 2)]"
  "arrays full_queue 0 = []" "length (arrays full_queue 1) = 1" "length (arrays full_queue 2) = 1"
  by (simp_all add: full_queue_def fill_scenario_def narrow_opts_def model_defs)

theorem enqueue_rejects_when_full_witness:
  "maxSize full_queue \<le> totalItems full_queue \<and>
   enqueue 4 (Some ''t4'') (Some ''D'') None (Some probe) full_queue =
     (False, full_queue\<lparr>trace := trace full_queue @
                [CallbackInvoked 7 (Some (Error ''Queue full - backpressure''))]\<rparr>)"
proof -
  have h: "maxSize full_queue \<le> totalItems full_queue" by (simp add: full_queue_fields)
  from enqueue_rejects_when_full[OF h, of 4 "Some ''t4''" "Some ''D''" None "Some probe"] h
  show ?thesis by (simp add: probe_def)
qed

lemma drain_loop_adds:
  "\<exists>ext. trace (drain_loop es q) = trace q @ ext \<and> (\<forall>e \<in> set ext. \<exists>k u. e = TaskStarted k u)"
proof (induction es q rule: drain_loop.induct)
  case (1 q)
  show ?case by simp
next
  case (2 k a es q)
  let ?q1 = "processLane k (q\<lparr>activeLanes := activeLanes q @ [k]\<rparr>)"
  have p: "\<exists>ext. trace ?q1 = trace q @ ext \<and> (\<forall>e \<in> set ext. \<exists>k u. e = TaskStarted k u)"
    by (auto simp: processLane_def lane_loop_def split: option.splits list.splits)
  show ?case
  proof (cases "concurrency q \<le> int (length (activeLanes q))")
    case True
    then show ?thesis by simp
  next
    case full: False
    show ?thesis
    proof (cases "k \<in> set (activeLanes q) \<or> arrays q a = []")
      case True
      with full "2.IH"(1) show ?thesis by simp
    next
      case False
      from "2.IH"(2)[OF full False] obtain e2 where
        e2: "trace (drain_loop es ?q1) = trace ?q1 @ e2" "\<forall>e \<in> set e2. \<exists>k u. e = TaskStarted k u"
        by blast
      from p obtain e1 where
        e1: "trace ?q1 = trace q @ e1" "\<forall>e \<in> set e1. \<exists>k u. e = TaskStarted k u" by blast
      from e1 e2 have "trace (drain_loop es ?q1) = trace q @ (e1 @ e2) \<and>
          (\<forall>e \<in> set (e1 @ e2). \<exists>k u. e = TaskStarted k u)" by auto
      with full False show ?thesis by (simp del: append_assoc)
    qed
  qed
qed

lemma enqueue_accepted_adds:
  assumes "\<not> maxSize q \<le> totalItems q"
  shows "fst (enqueue t lab ky onS onF q) = True \<and>
         CallbackInvoked c x \<notin> set (drop (length (trace q)) (trace (snd (enqueue t lab ky onS onF q))))"
proof -
  have d: "CallbackInvoked c x \<notin> set (drop (length (trace q)) (trace (drain q')))"
    if "trace q' = trace q @ [Enqueued k u]" for q' k u
  proof -
    from drain_loop_adds[of "lanes q'" q'] obtain ext where
      "trace (drain q') = trace q' @ ext" "\<forall>e \<in> set ext. \<exists>k u. e = TaskStarted k u"
      by (auto simp: drain_def)
    with that show ?thesis by auto
  qed
  from assms show ?thesis
    by (auto simp: enqueue_def Let_def intro!: d split: option.splits)
qed

text \<open>
  Claim C6, amended. In every reachable state \<open>_totalItems\<close> is the number of items waiting
  in the lane arrays, and \<open>enqueue\<close> returns false exactly when that number has reached
  \<open>maxSize\<close>. An item whose task is running, or which waits for its backoff timer, has
  left its array and is not counted. When \<open>enqueue\<close> returns false it has called
  \<open>onFailure\<close> (when one was supplied) with the error \<open>Queue full - backpressure\<close> and
  changed nothing else; when it returns true it has called no callback.
\<close>

theorem backpressure_counts_waiting:
  assumes "run xs (KeyedConcurrentQueue nm os) = Some q"
  shows "totalItems q = (\<Sum>e\<leftarrow>lanes q. int (length (arrays q (snd e)))) \<and>
         (fst (enqueue t lab ky onS onF q) = False \<longleftrightarrow>
            or_default (opt_maxSize os) 10000 \<le> (\<Sum>e\<leftarrow>lanes q. int (length (arrays q (snd e))))) \<and>
         (or_default (opt_maxSize os) 10000 \<le> (\<Sum>e\<leftarrow>lanes q. int (length (arrays q (snd e)))) \<longrightarrow>
            enqueue t lab ky onS onF q =
              (False, case onF of
                        None \<Rightarrow> q
                      | Some cb \<Rightarrow> q\<lparr>trace := trace q @
                           [CallbackInvoked (cb_id cb) (Some (Error ''Queue full - backpressure''))]\<rparr>)) \<and>
         (\<not> or_default (opt_maxSize os) 10000 \<le> (\<Sum>e\<leftarrow>lanes q. int (length (arrays q (snd e)))) \<longrightarrow>
            fst (enqueue t lab ky onS onF q) = True \<and>
            CallbackInvoked c x \<notin>
              set (drop (length (trace q)) (trace (snd (enqueue t lab ky onS onF q)))))"
proof -
  from reach_qinv[OF assms] have c: "count_ok q" by (simp add: qinv_def)
  from config_run[OF assms] have m: "maxSize q = or_default (opt_maxSize os) 10000"
    by (simp add: config_def KeyedConcurrentQueue_def)
  have a: "fst (enqueue t lab ky onS onF q) = False \<longleftrightarrow> maxSize q \<le> totalItems q"
    by (simp add: enqueue_def Let_def split: option.splits prod.splits)
  have b: "enqueue t lab ky onS onF q =
              (False, case onF of
                        None \<Rightarrow> q
                      | Some cb \<Rightarrow> q\<lparr>trace := trace q @
                           [CallbackInvoked (cb_id cb) (Some (Error ''Queue full - backpressure''))]\<rparr>)"
    if "maxSize q \<le> totalItems q"
    using that by (simp add: enqueue_def Let_def try_cb_def call_cb_def split: option.splits)
  note d = enqueue_accepted_adds[of q t lab ky onS onF c x]
  from c m a b d show ?thesis by (simp add: count_ok_def)
qed

lemma two_slow_run:
  "run [Enqueue 1 (Some ''slow1'') (Some ''A'') None None,
        Enqueue 2 (Some ''slow2'') (Some ''B'') None None]
       (KeyedConcurrentQueue ''Q'' small_opts) = Some two_slow"
  by (simp add: two_slow_def small_opts_def model_defs)

lemma two_slow_lanes:
  "(\<Sum>e\<leftarrow>lanes two_slow. int (length (arrays two_slow (snd e)))) = 0"
  by (simp add: two_slow_def small_opts_def model_defs)

theorem backpressure_counts_waiting_witness:
  "run fill_scenario (KeyedConcurrentQueue ''Q'' narrow_opts) = Some full_queue \<and>
   totalItems full_queue = 2 \<and>
   (\<Sum>e\<leftarrow>lanes full_queue. int (length (arrays full_queue (snd e)))) = 2 \<and>
   or_default (opt_maxSize narrow_opts) 10000 = 2 \<and>
   enqueue 4 (Some ''t4'') (Some ''D'') None (Some probe) full_queue =
     (False, full_queue\<lparr>trace := trace full_queue @
                [CallbackInvoked 7 (Some (Error ''Queue full - backpressure''))]\<rparr>) \<and>
   run [Enqueue 1 (Some ''slow1'') (Some ''A'') None None,
        Enqueue 2 (Some ''slow2'') (Some ''B'') None None]
       (KeyedConcurrentQueue ''Q'' small_opts) = Some two_slow \<and>
   or_default (opt_maxSize small_opts) 10000 = 2 \<and>
   (\<Sum>e\<leftarrow>lanes two_slow. int (length (arrays two_slow (snd e)))) = 0 \<and>
   fst (enqueue 3 (Some ''t3'') (Some ''C'') None (Some probe) two_slow) = True \<and>
   CallbackInvoked 7 (Some (Error ''Queue full - backpressure'')) \<notin>
     set (drop (length (trace two_slow))
            (trace (snd (enqueue 3 (Some ''t3'') (Some ''C'') None (Some probe) two_slow))))"
proof -
  have m1: "or_default (opt_maxSize narrow_opts) 10000 = 2"
    and m2: "or_default (opt_maxSize small_opts) 10000 = 2"
    by (simp_all add: narrow_opts_def small_opts_def or_default_def)
  have s1: "(\<Sum>e\<leftarrow>lanes full_queue. int (length (arrays full_queue (snd e)))) = 2"
    by (simp add: full_queue_def fill_scenario_def narrow_opts_def model_defs)
  note s2 = two_slow_lanes
  from backpressure_counts_waiting[OF full_queue_run, of 4 "Some ''t4''" "Some ''D''" None "Some probe" 7
        "Some (Error ''Queue full - backpressure'')"]
  have a: "totalItems full_queue = 2 \<and>
     enqueue 4 (Some ''t4'') (Some ''D'') None (Some probe) full_queue =
     (False, full_queue\<lparr>trace := trace full_queue @
                [CallbackInvoked 7 (Some (Error ''Queue full - backpressure''))]\<rparr>)"
    unfolding m1 s1 by (simp add: probe_def)
  from backpressure_counts_waiting[OF two_slow_run, of 3 "Some ''t3''" "Some ''C''" None "Some probe" 7
        "Some (Error ''Queue full - backpressure'')"]
  have b: "fst (enqueue 3 (Some ''t3'') (Some ''C'') None (Some probe) two_slow) = True \<and>
     CallbackInvoked 7 (Some (Error ''Queue full - backpressure'')) \<notin>
       set (drop (length (trace two_slow))
            (trace (snd (enqueue 3 (Some ''t3'') (Some ''C'') None (Some probe) two_slow))))"
    unfolding m2 s2 by simp
  from a b m1 m2 s1 s2 full_queue_run two_slow_run show ?thesis by simp
qed

lemma lane_loop_trace:
  "trace (lane_loop k a q) =
     trace q @ (case arrays q a of [] \<Rightarrow> [] | it # rest \<Rightarrow> [TaskStarted k (uid it)])"
  by (simp add: lane_loop_def split: list.splits)

lemma lane_loop_procs:
  "procs (lane_loop k a q) =
     (procs q)(k \<mapsto> (case arrays q a of [] \<Rightarrow> Completed | it # rest \<Rightarrow> AwaitingTask a it))"
  by (simp add: lane_loop_def split: list.splits)

lemma grow_lane_loop: "prefix (trace q) (trace (lane_loop k a q))"
  by (simp add: lane_loop_trace)

lemma grow_processLane: "prefix (trace q) (trace (processLane k q))"
  by (simp add: processLane_def grow_lane_loop split: option.splits)

lemma grow_drain_loop: "prefix (trace q) (trace (drain_loop es q))"
proof (induction es q rule: drain_loop.induct)
  case (1 q)
  show ?case by simp
next
  case (2 k a es q)
  have "prefix (trace q) (trace (processLane k (q\<lparr>activeLanes := activeLanes q @ [k]\<rparr>)))"
    using grow_processLane[of "q\<lparr>activeLanes := activeLanes q @ [k]\<rparr>" k] by simp
  with 2 show ?case by (auto intro: prefix_order.trans)
qed

lemma grow_enqueue: "prefix (trace q) (trace (snd (enqueue t lab ky onS onF q)))"
proof -
  have a: "prefix (trace q) (trace (drain q'))" if "prefix (trace q) (trace q')" for q'
    using that grow_drain_loop[of q' "lanes q'"] by (auto simp: drain_def intro: prefix_order.trans)
  show ?thesis
    by (auto simp: enqueue_def Let_def try_cb_trace intro!: a split: option.splits)
qed

lemma grow_on_settle: "prefix (trace q) (trace (on_settle k a it out q))"
  by (auto simp: on_settle_def Let_def lane_loop_trace try_cb_trace split: outcome.splits option.splits list.splits)

lemma grow_on_timeout: "prefix (trace q) (trace (on_timeout k a it q))"
  by (simp add: on_timeout_eq)

lemma grow_on_finally: "prefix (trace q) (trace (on_finally k q))"
proof -
  have a: "prefix (trace q) (trace (drain q'))" if "trace q' = trace q" for q'
    using that grow_drain_loop[of q' "lanes q'"] by (simp add: drain_def)
  show ?thesis
    by (auto simp: on_finally_def Let_def intro!: a split: option.splits)
qed

lemma grow_step: "step x q = Some q' \<Longrightarrow> prefix (trace q) (trace q')"
  by (cases x)
     (auto simp: grow_enqueue grow_on_settle grow_on_timeout grow_on_finally
           split: option.splits phase.splits)

lemma grow_run: "run xs q = Some q' \<Longrightarrow> prefix (trace q) (trace q')"
proof (induction xs arbitrary: q)
  case Nil
  then show ?case by simp
next
  case (Cons x xs)
  from Cons.prems obtain q1 where s: "step x q = Some q1" and r: "run xs q1 = Some q'"
    by (auto split: option.splits)
  from grow_step[OF s] Cons.IH[OF r] show ?case by (rule prefix_order.trans)
qed

lemma starts_enqueued:
  assumes "qinv q" "TaskStarted k u \<in> set (trace q)"
  shows "u \<in> set (enqueued k (trace q))"
proof -
  have "u \<in> set (starts k tr)" if "TaskStarted k u \<in> set tr" for tr
    using that by (induction k tr rule: starts.induct) auto
  with assms(2) have a: "u \<in> set (remdups_adj (starts k (trace q)))" by simp
  from assms(1) have "key_ok q k" by (simp add: qinv_def)
  then have "remdups_adj (starts k (trace q)) = finished k (trace q) @ map uid (running (procs q k))"
    and "enqueued k (trace q) = finished k (trace q) @ map uid (running (procs q k)) @
           map uid (lane_of (lanes q) (arrays q) k)"
    by (simp_all add: key_ok_def)
  with a show ?thesis by auto
qed

lemma run_append:
  "run (xs @ ys) q = (case run xs q of None \<Rightarrow> None | Some q' \<Rightarrow> run ys q')"
  by (induction xs arbitrary: q) (auto split: option.splits)

text \<open>
  Claim C7. A lane processor holds item \<open>it\<close>, whose retries are used up, and its task
  rejects with \<open>err\<close>. Then, in one step: the \<open>failed\<close> counter goes up by one, \<open>onFailure\<close>
  (if supplied) is called with \<open>err\<close> and whatever it throws is dropped, and the lane goes
  on at once: the next item waiting in the lane array is shifted out and its task is
  called, or the processor returns when the array is empty. The item is gone for good: in
  every later state it is in no lane array and held by no processor, and no task start of
  it occurs in the trace after the failure.
\<close>

theorem retries_exhausted:
  assumes reach: "run xs (KeyedConcurrentQueue nm os) = Some q"
    and held: "procs q k = Some (AwaitingTask a it)"
    and spent: "\<not> int (retries it) < maxRetries q"
    and later: "run ys (on_settle k a it (Rejected err) q) = Some q''"
  shows "step (Settle k (Rejected err)) q = Some (on_settle k a it (Rejected err) q) \<and>
         failed (on_settle k a it (Rejected err) q) = failed q + 1 \<and>
         trace (on_settle k a it (Rejected err) q) =
           trace q @ [TaskFailed k (uid it) err]
             @ (case onFailure it of None \<Rightarrow> []
                | Some cb \<Rightarrow> [CallbackInvoked (cb_id cb) (Some err)])
             @ (case arrays q a of [] \<Rightarrow> [] | nxt # rest \<Rightarrow> [TaskStarted k (uid nxt)]) \<and>
         procs (on_settle k a it (Rejected err) q) k =
           Some (case arrays q a of [] \<Rightarrow> Completed | nxt # rest \<Rightarrow> AwaitingTask a nxt) \<and>
         uid it \<notin> uid ` set (running (procs q'' k') @ lane_of (lanes q'') (arrays q'') k') \<and>
         TaskStarted k' (uid it) \<notin> set (drop (length (trace q)) (trace q''))"
proof -
  let ?q' = "on_settle k a it (Rejected err) q"
  let ?u = "uid it"
  have st: "step (Settle k (Rejected err)) q = Some ?q'" using held by simp
  have tr': "trace ?q' = trace q @ [TaskFailed k ?u err]
             @ (case onFailure it of None \<Rightarrow> []
                | Some cb \<Rightarrow> [CallbackInvoked (cb_id cb) (Some err)])
             @ (case arrays q a of [] \<Rightarrow> [] | nxt # rest \<Rightarrow> [TaskStarted k (uid nxt)])"
    using spent by (simp add: on_settle_def lane_loop_trace try_cb_trace)
  have fl: "failed ?q' = failed q + 1" using spent by (simp add: on_settle_def)
  have pr: "procs ?q' k = Some (case arrays q a of [] \<Rightarrow> Completed | nxt # rest \<Rightarrow> AwaitingTask a nxt)"
    using spent by (simp add: on_settle_def lane_loop_procs)
  from reach st later have "run (xs @ Settle k (Rejected err) # ys) (KeyedConcurrentQueue nm os) = Some q''"
    by (simp add: run_append)
  then have inv: "qinv q''" by (rule reach_qinv)
  from grow_run[OF later] obtain ext where ext: "trace q'' = trace ?q' @ ext"
    by (auto simp: prefix_def)
  let ?i = "length (trace q)"
  from ext tr' have at: "trace q'' ! ?i = TaskFailed k ?u err" and len: "?i < length (trace q'')"
    by (simp_all add: nth_append)
  from ext tr' have "TaskFailed k ?u err \<in> set (trace q'')" by simp
  then have fin: "?u \<in> set (finished k (trace q''))" by (rule failed_in_finished)
  from inv have ko: "\<And>k. key_ok q'' k" and uo: "uids_ok q''" by (simp_all add: qinv_def)
  from uo have dist: "distinct (map snd (enq_pairs (trace q'')))" by (simp add: uids_ok_def)
  have e: "enqueued k (trace q'') = finished k (trace q'') @
        map uid (running (procs q'' k) @ lane_of (lanes q'') (arrays q'') k)" for k
    using ko[of k] by (simp add: key_ok_def)
  from fin e[of k] have mine: "?u \<in> set (enqueued k (trace q''))" by simp
  have gone: "?u \<notin> uid ` set (running (procs q'' k') @ lane_of (lanes q'') (arrays q'') k')"
  proof
    assume in_lane: "?u \<in> uid ` set (running (procs q'' k') @ lane_of (lanes q'') (arrays q'') k')"
    with e[of k'] have "?u \<in> set (enqueued k' (trace q''))" by auto
    from enqueued_disjoint[OF dist this mine] have same: "k' = k" .
    from dist have "distinct (enqueued k (trace q''))" by (rule enqueued_distinct)
    with e[of k] fin in_lane same show False by auto
  qed
  have never: "TaskStarted k' ?u \<notin> set (drop ?i (trace q''))"
  proof
    assume "TaskStarted k' ?u \<in> set (drop ?i (trace q''))"
    then obtain j where j: "j < length (trace q'') - ?i" "drop ?i (trace q'') ! j = TaskStarted k' ?u"
      by (auto simp: in_set_conv_nth)
    with len have nth: "trace q'' ! (?i + j) = TaskStarted k' ?u" and lt: "?i + j < length (trace q'')"
      by simp_all
    then have "TaskStarted k' ?u \<in> set (trace q'')" by (metis nth_mem)
    from starts_enqueued[OF inv this] enqueued_disjoint[OF dist _ mine] have same: "k' = k" by blast
    from nth at have "j \<noteq> 0" by (cases "j = 0") auto
    then have "?i < ?i + j" by simp
    moreover from ko[of k] have "no_restart k [] (trace q'')" by (simp add: key_ok_def)
    ultimately show False using no_restart_nth[OF _ _ lt at] nth same by blast
  qed
  from st fl tr' pr gone never show ?thesis by simp
qed

lemma exhaust_run: "run exhaust_prefix (KeyedConcurrentQueue ''Q'' exhaust_opts) = Some exhaust_q"
  by (simp add: exhaust_q_def exhaust_prefix_def exhaust_opts_def probe_def model_defs)

lemma exhaust_q_fields:
  "procs exhaust_q ''A'' = Some (AwaitingTask 0 exhaust_item)"
  "maxRetries exhaust_q = 1" "failed exhaust_q = 0"
  "arrays exhaust_q 0 = [\<lparr>uid = 1, task = 2, label = ''t2'', retries = 0,
                          onSuccess = None, onFailure = None\<rparr>]"
  "trace exhaust_q = [Enqueued ''A'' 0, TaskStarted ''A'' 0, Enqueued ''A'' 1,
                      TimerSet ''A'' 0 1000, TaskStarted ''A'' 0]"
  by (simp_all add: exhaust_q_def exhaust_prefix_def exhaust_opts_def exhaust_item_def probe_def model_defs)

lemma exhaust_later_run:
  "run exhaust_rest (on_settle ''A'' 0 exhaust_item (Rejected (Error ''down'')) exhaust_q) = Some exhaust_later"
  by (simp add: exhaust_later_def exhaust_rest_def exhaust_q_def exhaust_prefix_def exhaust_opts_def
        exhaust_item_def probe_def model_defs)

lemma exhaust_later_fields:
  "trace exhaust_later = [Enqueued ''A'' 0, TaskStarted ''A'' 0, Enqueued ''A'' 1,
      TimerSet ''A'' 0 1000, TaskStarted ''A'' 0, TaskFailed ''A'' 0 (Error ''down''),
      CallbackInvoked 7 (Some (Error ''down'')), TaskStarted ''A'' 1, TaskSucceeded ''A'' 1]"
  "lanes exhaust_later = []" "procs exhaust_later ''A'' = None"
  by (simp_all add: exhaust_later_def exhaust_rest_def exhaust_q_def exhaust_prefix_def exhaust_opts_def
        exhaust_item_def probe_def model_defs)

theorem retries_exhausted_witness:
  "run exhaust_prefix (KeyedConcurrentQueue ''Q'' exhaust_opts) = Some exhaust_q \<and>
   procs exhaust_q ''A'' = Some (AwaitingTask 0 exhaust_item) \<and>
   \<not> int (retries exhaust_item) < maxRetries exhaust_q \<and>
   run exhaust_rest (on_settle ''A'' 0 exhaust_item (Rejected (Error ''down'')) exhaust_q)
     = Some exhaust_later \<and>
   failed (on_settle ''A'' 0 exhaust_item (Rejected (Error ''down'')) exhaust_q) = 1 \<and>
   trace (on_settle ''A'' 0 exhaust_item (Rejected (Error ''down'')) exhaust_q) =
     trace exhaust_q @ [TaskFailed ''A'' 0 (Error ''down''),
                        CallbackInvoked 7 (Some (Error ''down'')), TaskStarted ''A'' 1] \<and>
   TaskStarted ''A'' 0 \<notin> set (drop (length (trace exhaust_q)) (trace exhaust_later))"
proof -
  have h3: "\<not> int (retries exhaust_item) < maxRetries exhaust_q"
    by (simp add: exhaust_q_fields exhaust_item_def)
  from retries_exhausted[OF exhaust_run exhaust_q_fields(1) h3 exhaust_later_run, of "''A''"]
    exhaust_run exhaust_q_fields(1) h3 exhaust_later_run
  show ?thesis
    by (simp add: exhaust_q_fields exhaust_later_fields exhaust_item_def probe_def)
qed

section \<open>Proofs about the submission pipeline\<close>

lemma isSessionValid_Valid:
  assumes "fst (isSessionValid now sid st) = Valid s"
  shows "isSessionValid now sid st = (Valid s, st)"
  using assms by (auto simp: isSessionValid_def getSession_def split: option.splits if_splits)

lemma isSessionValid_tables [simp]:
  "attendance (snd (isSessionValid now sid st)) = attendance st"
  "session_attendees (snd (isSessionValid now sid st)) = session_attendees st"
  "next_rowid (snd (isSessionValid now sid st)) = next_rowid st"
  by (simp_all add: isSessionValid_def getSession_def deactivateSession_def split: option.splits)

lemma addSessionAttendee_tables [simp]:
  "attendance (addSessionAttendee sid em st) = attendance st"
  "session_attendees (addSessionAttendee sid em st) =
     (if (sid, em) \<in> set (session_attendees st) then session_attendees st
      else session_attendees st @ [(sid, em)])"
  by (simp_all add: addSessionAttendee_def Let_def split: option.splits)

lemma mac_or_na_truthy [simp]: "truthy_str (mac_or_na m)"
  by (simp add: mac_or_na_def truthy_str_def)

lemma submit_invalid:
  assumes "fst (isSessionValid now (body_sessionId req) st) = Invalid why"
  shows "fst (submit ev req now st) = \<lparr>success = True, message = ''Attendance submitted successfully''\<rparr>"
    and "attendance (fst (snd (submit ev req now st))) = attendance st"
    and "session_attendees (fst (snd (submit ev req now st))) = session_attendees st"
    and "snd (snd (submit ev req now st)) = []"
proof -
  obtain st1 where e: "isSessionValid now (body_sessionId req) st = (Invalid why, st1)"
    using assms by (cases "isSessionValid now (body_sessionId req) st") simp
  from isSessionValid_tables[of now "body_sessionId req" st] e
  have t: "attendance st1 = attendance st" "session_attendees st1 = session_attendees st" by simp_all
  from e t show
    "fst (submit ev req now st) = \<lparr>success = True, message = ''Attendance submitted successfully''\<rparr>"
    "attendance (fst (snd (submit ev req now st))) = attendance st"
    "session_attendees (fst (snd (submit ev req now st))) = session_attendees st"
    "snd (snd (submit ev req now st)) = []"
    by (simp_all add: submit_def)
qed

lemma submit_duplicate:
  assumes "fst (isSessionValid now (body_sessionId req) st) = Valid sess"
    and "hasSessionAttendee st (body_sessionId req) (body_email req)"
  shows "submit ev req now st = (\<lparr>success = True, message = ''Attendance already recorded''\<rparr>, st, [])"
  using assms(2) isSessionValid_Valid[OF assms(1)] by (simp add: submit_def)

lemma submit_accepted:
  assumes "fst (isSessionValid now (body_sessionId req) st) = Valid sess"
    and "\<not> hasSessionAttendee st (body_sessionId req) (body_email req)"
  shows "fst (submit ev req now st) = \<lparr>success = True, message = ''Attendance submitted successfully''\<rparr>"
    and "attendance (fst (snd (submit ev req now st))) = attendance st @ [new_record ev req now st sess]"
    and "session_attendees (fst (snd (submit ev req now st))) =
           session_attendees st @ [(body_sessionId req, body_email req)]"
proof -
  note e = isSessionValid_Valid[OF assms(1)]
  from assms(2) have n: "(body_sessionId req, body_email req) \<notin> set (session_attendees st)"
    by (simp add: hasSessionAttendee_def)
  from e assms(2) show
    "fst (submit ev req now st) = \<lparr>success = True, message = ''Attendance submitted successfully''\<rparr>"
    by (simp add: submit_def Let_def addAttendanceRecord_def)
  from e assms(2) show
    "attendance (fst (snd (submit ev req now st))) = attendance st @ [new_record ev req now st sess]"
    by (simp add: submit_def Let_def addAttendanceRecord_def new_record_def)
  from e assms(2) n show "session_attendees (fst (snd (submit ev req now st))) =
           session_attendees st @ [(body_sessionId req, body_email req)]"
    by (simp add: submit_def Let_def addAttendanceRecord_def)
qed

lemma new_record_key [simp]:
  "sessionId (new_record ev req now st sess) = body_sessionId req"
  "email (new_record ev req now st sess) = body_email req"
  "macAddress (new_record ev req now st sess) = mac_or_na (body_macAddress req)"
  "studentName (new_record ev req now st sess) = body_studentName req"
  by (simp_all add: new_record_def Let_def)

lemma submit_cases:
  obtains (invalid) why where "fst (isSessionValid now (body_sessionId req) st) = Invalid why"
  | (duplicate) sess where "fst (isSessionValid now (body_sessionId req) st) = Valid sess"
      "hasSessionAttendee st (body_sessionId req) (body_email req)"
  | (accepted) sess where "fst (isSessionValid now (body_sessionId req) st) = Valid sess"
      "\<not> hasSessionAttendee st (body_sessionId req) (body_email req)"
  by (cases "fst (isSessionValid now (body_sessionId req) st)") auto

lemma submit_grows:
  "\<exists>recs. attendance (fst (snd (submit ev req now st))) = attendance st @ recs"
proof (cases rule: submit_cases[of now req st])
  case (invalid why)
  then show ?thesis by (simp add: submit_invalid)
next
  case (duplicate sess)
  then show ?thesis by (simp add: submit_duplicate)
next
  case (accepted sess)
  then show ?thesis by (simp add: submit_accepted)
qed

lemma submit_all_grows:
  "\<exists>recs. attendance (submit_all ev reqs st) = attendance st @ recs"
proof (induction reqs arbitrary: st)
  case Nil
  show ?case by simp
next
  case (Cons x reqs)
  obtain req now where x: "x = (req, now)" by (cases x)
  from submit_grows[of ev req now st] obtain r1 where
    a: "attendance (fst (snd (submit ev req now st))) = attendance st @ r1" by blast
  from Cons.IH[of "fst (snd (submit ev req now st))"] obtain r2 where
    "attendance (submit_all ev reqs (fst (snd (submit ev req now st)))) =
       attendance (fst (snd (submit ev req now st))) @ r2" by blast
  with a x show ?case by simp
qed

lemma submit_keeps_count:
  assumes "\<And>sid em. length (records_of st sid em) = (if hasSessionAttendee st sid em then 1 else 0)"
  shows "length (records_of (fst (snd (submit ev req now st))) sid em) =
           (if hasSessionAttendee (fst (snd (submit ev req now st))) sid em then 1 else 0)"
proof (cases rule: submit_cases[of now req st])
  case (invalid why)
  with assms[of sid em] show ?thesis
    by (simp add: submit_invalid records_of_def hasSessionAttendee_def)
next
  case (duplicate sess)
  with assms[of sid em] show ?thesis by (simp add: submit_duplicate)
next
  case (accepted sess)
  from accepted(2) assms[of "body_sessionId req" "body_email req"]
  have none: "records_of st (body_sessionId req) (body_email req) = []" by simp
  show ?thesis
  proof (cases "sid = body_sessionId req \<and> em = body_email req")
    case True
    with none accepted show ?thesis
      by (simp add: submit_accepted records_of_def hasSessionAttendee_def)
  next
    case False
    with assms[of sid em] accepted show ?thesis
      by (auto simp: submit_accepted records_of_def hasSessionAttendee_def)
  qed
qed

lemma submit_all_keeps_count:
  assumes "\<And>sid em. length (records_of st sid em) = (if hasSessionAttendee st sid em then 1 else 0)"
  shows "length (records_of (submit_all ev reqs st) sid em) =
           (if hasSessionAttendee (submit_all ev reqs st) sid em then 1 else 0)"
  using assms
proof (induction reqs arbitrary: st sid em)
  case Nil
  then show ?case by simp
next
  case (Cons x reqs)
  obtain req now where x: "x = (req, now)" by (cases x)
  have "length (records_of (submit_all ev reqs (fst (snd (submit ev req now st)))) sid em) =
          (if hasSessionAttendee (submit_all ev reqs (fst (snd (submit ev req now st)))) sid em then 1 else 0)"
    by (rule Cons.IH) (rule submit_keeps_count, rule Cons.prems)
  with x show ?case by simp
qed

text \<open>
  Claim C5. From empty tables, after any sequence of submissions, the number of attendance
  records of a pair of session id and email is 1 if the pair is in \<open>session_attendees\<close> and
  0 otherwise, so it is never more than 1. A submission for a pair that is already an
  attendee writes nothing (both tables stay as they are) and enqueues nothing; and after a
  submission to a valid session its pair is an attendee, so that a second one is stopped
  by the membership check.
\<close>

theorem one_record_per_attendee:
  assumes "attendance st0 = []" and "session_attendees st0 = []"
  shows "length (records_of (submit_all ev reqs st0) sid em) =
           (if hasSessionAttendee (submit_all ev reqs st0) sid em then 1 else 0) \<and>
         length (records_of (submit_all ev reqs st0) sid em) \<le> 1 \<and>
         (hasSessionAttendee (submit_all ev reqs st0) (body_sessionId req) (body_email req) \<longrightarrow>
            attendance (fst (snd (submit ev req now (submit_all ev reqs st0))))
              = attendance (submit_all ev reqs st0) \<and>
            session_attendees (fst (snd (submit ev req now (submit_all ev reqs st0))))
              = session_attendees (submit_all ev reqs st0) \<and>
            snd (snd (submit ev req now (submit_all ev reqs st0))) = []) \<and>
         (fst (isSessionValid now (body_sessionId req) (submit_all ev reqs st0)) = Valid sess \<longrightarrow>
            hasSessionAttendee (fst (snd (submit ev req now (submit_all ev reqs st0))))
              (body_sessionId req) (body_email req))"
proof -
  let ?st = "submit_all ev reqs st0"
  have c: "length (records_of ?st sid em) = (if hasSessionAttendee ?st sid em then 1 else 0)"
    by (rule submit_all_keeps_count) (simp add: assms records_of_def hasSessionAttendee_def)
  have d: "attendance (fst (snd (submit ev req now ?st))) = attendance ?st \<and>
           session_attendees (fst (snd (submit ev req now ?st))) = session_attendees ?st \<and>
           snd (snd (submit ev req now ?st)) = []"
    if "hasSessionAttendee ?st (body_sessionId req) (body_email req)"
  proof (cases rule: submit_cases[of now req ?st])
    case (invalid why)
    then show ?thesis by (simp add: submit_invalid)
  next
    case (duplicate sess)
    then show ?thesis by (simp add: submit_duplicate)
  next
    case (accepted sess)
    with that show ?thesis by simp
  qed
  have e: "hasSessionAttendee (fst (snd (submit ev req now ?st))) (body_sessionId req) (body_email req)"
    if v: "fst (isSessionValid now (body_sessionId req) ?st) = Valid sess"
  proof (cases "hasSessionAttendee ?st (body_sessionId req) (body_email req)")
    case True
    with v show ?thesis by (simp add: submit_duplicate)
  next
    case False
    with v show ?thesis by (simp add: submit_accepted hasSessionAttendee_def)
  qed
  from c d e show ?thesis by simp
qed

lemmas demo_defs = demo_env_def far_env_def classroom_def demo_session_def demo_store_def
  amina_def bilal_def ghost_def

lemmas pipeline_defs = submit_def isSessionValid_def getSession_def deactivateSession_def
  hasSessionAttendee_def addSessionAttendee_def addAttendanceRecord_def getAttendanceStore_def
  checkDuplicateDevice_def validateSubmission_def validateLocation_def radius_or_default_def
  usable_def truthy_num_def truthy_str_def mac_or_na_def num_or_na_def Let_def

text \<open>
  Claim C4, as stated, fails on the duplicate branch. The same payload is submitted twice
  to an open session: the first submission is accepted and answered with
  \<open>Attendance submitted successfully\<close>, the second is answered with
  \<open>Attendance already recorded\<close>. Both have \<open>success: true\<close>, but the two responses differ.
\<close>

theorem duplicate_response_differs:
  "fst (submit demo_env amina 10 demo_store) =
     \<lparr>success = True, message = ''Attendance submitted successfully''\<rparr> \<and>
   length (attendance (fst (snd (submit demo_env amina 10 demo_store)))) = 1 \<and>
   fst (submit demo_env amina 20 (fst (snd (submit demo_env amina 10 demo_store)))) =
     \<lparr>success = True, message = ''Attendance already recorded''\<rparr> \<and>
   fst (submit demo_env amina 20 (fst (snd (submit demo_env amina 10 demo_store)))) \<noteq>
     fst (submit demo_env amina 10 demo_store)"
  by (simp add: demo_defs pipeline_defs)

text \<open>
  Claim C4, amended. Every response of the handler has \<open>success: true\<close>. Its message is
  \<open>Attendance already recorded\<close> when the session is valid and the pair of session id and
  email has already submitted, and \<open>Attendance submitted successfully\<close> in every other
  case: so a submission to a missing, inactive or expired session is answered exactly as
  an accepted one, and a repeated submission is not.
\<close>

theorem submit_response:
  "fst (submit ev req now st) =
     \<lparr>success = True,
       message = (if (\<exists>sess. fst (isSessionValid now (body_sessionId req) st) = Valid sess) \<and>
                     hasSessionAttendee st (body_sessionId req) (body_email req)
                  then ''Attendance already recorded''
                  else ''Attendance submitted successfully'')\<rparr>"
proof (cases rule: submit_cases[of now req st])
  case (invalid why)
  then show ?thesis by (simp add: submit_invalid)
next
  case (duplicate sess)
  then show ?thesis by (simp add: submit_duplicate)
next
  case (accepted sess)
  then show ?thesis by (simp add: submit_accepted)
qed

theorem submit_response_witness:
  "fst (submit demo_env ghost 10 demo_store) = fst (submit demo_env amina 10 demo_store) \<and>
   fst (isSessionValid 10 (body_sessionId ghost) demo_store) = Invalid ''Session not found'' \<and>
   fst (submit demo_env amina 2000 demo_store) = fst (submit demo_env amina 10 demo_store) \<and>
   fst (isSessionValid 2000 (body_sessionId amina) demo_store) = Invalid ''Session has expired'' \<and>
   message (fst (submit demo_env amina 20 (fst (snd (submit demo_env amina 10 demo_store)))))
     = ''Attendance already recorded''"
  using submit_response[of demo_env ghost 10 demo_store]
    submit_response[of demo_env amina 10 demo_store]
    submit_response[of demo_env amina 2000 demo_store]
    submit_response[of demo_env amina 20 "fst (snd (submit demo_env amina 10 demo_store))"]
  by (simp add: demo_defs pipeline_defs)

text \<open>
  The presence test is JavaScript truthiness: a coordinate equal to 0 counts as missing,
  so a student on the equator gets the answer of a student who sent no location.
\<close>

lemma zero_coordinate_is_missing:
  "validateLocation ev (Some \<lparr>lat = Some 0, lng = Some x\<rparr>) classroomLocation' radius =
     \<lparr>valid = False, distance = - 1, reason = NoLocationData\<rparr>"
  by (simp add: validateLocation_def usable_def truthy_num_def)




lemma new_record_status:
  "status (new_record ev req now st sess) =
     (if isValid (validateSubmission ev st (body_sessionId req) (body_studentName req)
              (body_email req) (req_ipAddress req) (mac_or_na (body_macAddress req))
              (if truthy_num (body_latitude req) \<and> truthy_num (body_longitude req)
               then Some \<lparr>lat = body_latitude req, lng = body_longitude req\<rparr> else None)
              (classroomLocation sess) (geofenceRadius sess))
      then ''PRESENT'' else ''FLAGGED'')"
  "violations (new_record ev req now st sess) =
     vr_violations (validateSubmission ev st (body_sessionId req) (body_studentName req)
              (body_email req) (req_ipAddress req) (mac_or_na (body_macAddress req))
              (if truthy_num (body_latitude req) \<and> truthy_num (body_longitude req)
               then Some \<lparr>lat = body_latitude req, lng = body_longitude req\<rparr> else None)
              (classroomLocation sess) (geofenceRadius sess))"
  by (simp_all add: new_record_def Let_def)

lemma duplicate_flags:
  assumes "isDuplicate (checkDuplicateDevice st sid ip mac)"
  shows "\<not> isValid (validateSubmission ev st sid nm em ip mac sl cl radius)"
    and "''Duplicate Device'' \<in> vtype ` set (vr_violations
           (validateSubmission ev st sid nm em ip mac sl cl radius))"
  using assms by (simp_all add: validateSubmission_def Let_def)

text \<open>
  Claim C9. Without usable student coordinates \<open>validateLocation\<close> answers
  \<open>valid: false, distance: -1\<close>; \<open>validateSubmission\<close> then records no Location Violation
  and is valid exactly when the device check finds no duplicate. With student coordinates
  but no usable classroom location the check is skipped: \<open>valid: true, distance: 0\<close>, no
  Location Violation; and none is recorded either when both are missing. For an accepted
  submission without coordinates, the stored record is \<open>FLAGGED\<close> exactly when the device
  check reports a duplicate, \<open>PRESENT\<close> otherwise, and carries no Location Violation.
\<close>

theorem no_coordinates:
  assumes "usable studentLocation = None"
    and "usable studentLocation2 = Some s" and "usable classroomLocation2 = None"
    and "fst (isSessionValid now (body_sessionId req) st') = Valid sess"
    and "\<not> hasSessionAttendee st' (body_sessionId req) (body_email req)"
    and "\<not> (truthy_num (body_latitude req) \<and> truthy_num (body_longitude req))"
  shows "validateLocation ev studentLocation classroomLocation' radius =
           \<lparr>valid = False, distance = - 1, reason = NoLocationData\<rparr> \<and>
         ''Location Violation'' \<notin> vtype ` set (vr_violations
             (validateSubmission ev st sid nm em ip mac studentLocation classroomLocation' radius)) \<and>
         isValid (validateSubmission ev st sid nm em ip mac studentLocation classroomLocation' radius) =
           (\<not> isDuplicate (checkDuplicateDevice st sid ip mac)) \<and>
         validateLocation ev studentLocation2 classroomLocation2 radius =
           \<lparr>valid = True, distance = 0, reason = NoClassroomLocation\<rparr> \<and>
         ''Location Violation'' \<notin> vtype ` set (vr_violations
             (validateSubmission ev st sid nm em ip mac studentLocation2 classroomLocation2 radius)) \<and>
         ''Location Violation'' \<notin> vtype ` set (vr_violations
             (validateSubmission ev st sid nm em ip mac studentLocation classroomLocation2 radius)) \<and>
         status (last (attendance (fst (snd (submit ev req now st'))))) =
           (if isDuplicate (checkDuplicateDevice st' (body_sessionId req) (req_ipAddress req)
                              (mac_or_na (body_macAddress req)))
            then ''FLAGGED'' else ''PRESENT'') \<and>
         ''Location Violation'' \<notin>
           vtype ` set (violations (last (attendance (fst (snd (submit ev req now st'))))))"
proof -
  have a: "validateLocation ev studentLocation classroomLocation' radius =
           \<lparr>valid = False, distance = - 1, reason = NoLocationData\<rparr>"
    using assms(1) by (simp add: validateLocation_def)
  have b: "''Location Violation'' \<notin> vtype ` set (vr_violations
             (validateSubmission ev st sid nm em ip mac studentLocation cl radius))" for cl
    using assms(1) by (auto simp: validateLocation_def validateSubmission_def Let_def)
  have c: "isValid (validateSubmission ev st sid nm em ip mac studentLocation classroomLocation' radius) =
           (\<not> isDuplicate (checkDuplicateDevice st sid ip mac))"
    using assms(1) by (simp add: validateLocation_def validateSubmission_def Let_def)
  have d: "validateLocation ev studentLocation2 classroomLocation2 radius =
           \<lparr>valid = True, distance = 0, reason = NoClassroomLocation\<rparr>"
    using assms(2,3) by (simp add: validateLocation_def)
  have e: "''Location Violation'' \<notin> vtype ` set (vr_violations
             (validateSubmission ev st sid nm em ip mac studentLocation2 classroomLocation2 radius))"
    using assms(2,3) by (auto simp: validateLocation_def validateSubmission_def Let_def)
  from assms(6) have f1: "status (new_record ev req now st' sess) =
           (if isDuplicate (checkDuplicateDevice st' (body_sessionId req) (req_ipAddress req)
                              (mac_or_na (body_macAddress req)))
            then ''FLAGGED'' else ''PRESENT'')"
    by (auto simp: new_record_status validateSubmission_def validateLocation_def usable_def Let_def)
  from assms(6) have f2: "''Location Violation'' \<notin> vtype ` set (violations (new_record ev req now st' sess))"
    by (auto simp: new_record_status validateSubmission_def validateLocation_def usable_def Let_def)
  from submit_accepted(2)[OF assms(4,5), of ev]
  have l: "last (attendance (fst (snd (submit ev req now st')))) = new_record ev req now st' sess"
    by simp
  from a b[of classroomLocation'] b[of classroomLocation2] c d e f1 f2 l show ?thesis by simp
qed

text \<open>
  Claim C10. Two submissions to the same session omit \<open>macAddress\<close> (or send an empty
  one); the first is accepted, any submissions follow, then the second is accepted. The
  first record is stored with the mac address \<open>N/A\<close>; the handler passes \<open>N/A\<close> for the
  second one too, \<open>checkDuplicateDevice\<close> matches the two strings and names the first
  submitter, and the second record is stored \<open>FLAGGED\<close> with a Duplicate Device
  violation and the mac address \<open>N/A\<close>. Nothing is assumed about the IP addresses.
\<close>

theorem na_mac_flags_later_submission:
  assumes "fst (isSessionValid now1 sid st) = Valid sess1"
    and "body_sessionId req1 = sid"
    and "\<not> hasSessionAttendee st sid (body_email req1)"
    and "\<not> truthy_str (body_macAddress req1)"
    and "st2 = submit_all ev others (fst (snd (submit ev req1 now1 st)))"
    and "fst (isSessionValid now2 sid st2) = Valid sess2"
    and "body_sessionId req2 = sid"
    and "\<not> hasSessionAttendee st2 sid (body_email req2)"
    and "\<not> truthy_str (body_macAddress req2)"
  shows "(\<exists>r \<in> set (attendance st2). sessionId r = sid \<and> email r = body_email req1 \<and>
            macAddress r = Some ''N/A'') \<and>
         body_email req1 \<in> set (duplicateOf
            (checkDuplicateDevice st2 sid (req_ipAddress req2) (mac_or_na (body_macAddress req2)))) \<and>
         status (last (attendance (fst (snd (submit ev req2 now2 st2))))) = ''FLAGGED'' \<and>
         ''Duplicate Device'' \<in>
           vtype ` set (violations (last (attendance (fst (snd (submit ev req2 now2 st2)))))) \<and>
         macAddress (last (attendance (fst (snd (submit ev req2 now2 st2))))) = Some ''N/A''"
proof -
  let ?r1 = "new_record ev req1 now1 st sess1"
  from assms(1,2,3) have "attendance (fst (snd (submit ev req1 now1 st))) = attendance st @ [?r1]"
    by (simp add: submit_accepted)
  moreover from submit_all_grows[of ev others "fst (snd (submit ev req1 now1 st))"] assms(5)
  obtain recs where "attendance st2 = attendance (fst (snd (submit ev req1 now1 st))) @ recs"
    by blast
  ultimately have in2: "?r1 \<in> set (attendance st2)" by simp
  from assms(4) have m1: "macAddress ?r1 = Some ''N/A''" by (simp add: mac_or_na_def)
  from assms(2) have k1: "sessionId ?r1 = sid" "email ?r1 = body_email req1" by simp_all
  from assms(9) have m2: "mac_or_na (body_macAddress req2) = Some ''N/A''" by (simp add: mac_or_na_def)
  let ?dups = "filter (\<lambda>r. (truthy_str (req_ipAddress req2) \<and> ipAddress r = req_ipAddress req2) \<or>
                           (truthy_str (Some ''N/A'') \<and> macAddress r = Some ''N/A''))
                 (filter (\<lambda>r. sessionId r = sid) (attendance st2))"
  from in2 m1 k1 have rd: "?r1 \<in> set ?dups" by (simp add: truthy_str_def)
  then have ne: "0 < length ?dups" by (rule length_pos_if_in_set)
  from ne have dup: "isDuplicate (checkDuplicateDevice st2 sid (req_ipAddress req2) (Some ''N/A''))"
    by (simp add: checkDuplicateDevice_def getAttendanceStore_def Let_def)
  from ne rd k1 have who: "body_email req1 \<in> set (duplicateOf
      (checkDuplicateDevice st2 sid (req_ipAddress req2) (Some ''N/A'')))"
    by (simp add: checkDuplicateDevice_def getAttendanceStore_def Let_def) force
  let ?r2 = "new_record ev req2 now2 st2 sess2"
  from assms(6,7,8) have l: "last (attendance (fst (snd (submit ev req2 now2 st2)))) = ?r2"
    by (simp add: submit_accepted)
  from duplicate_flags[OF dup] assms(7) m2
  have s2: "status ?r2 = ''FLAGGED''" and v2: "''Duplicate Device'' \<in> vtype ` set (violations ?r2)"
    by (simp_all add: new_record_status)
  from in2 m1 k1 have "\<exists>r \<in> set (attendance st2). sessionId r = sid \<and> email r = body_email req1 \<and>
            macAddress r = Some ''N/A''" by blast
  with who s2 v2 l m2 show ?thesis by simp
qed

lemma after_amina_fields:
  "session_attendees after_amina = [(''s1'', ''amina@univ.dz'')]"
  "sessions after_amina ''s1'' = Some (demo_session\<lparr>attendeeCount := 1\<rparr>)"
  "map macAddress (attendance after_amina) = [Some ''N/A'']"
  "map email (attendance after_amina) = [''amina@univ.dz'']"
  "map sessionId (attendance after_amina) = [''s1'']"
  "map status (attendance after_amina) = [''PRESENT'']"
  "map ipAddress (attendance after_amina) = [Some ''10.0.0.1'']"
  "length (attendance after_amina) = 1"
  "sessions after_amina ''nope'' = None"
  by (simp_all add: after_amina_def demo_defs pipeline_defs)

lemma amina_twice_eq: "amina_twice = after_amina"
  by (simp add: amina_twice_def after_amina_def demo_defs pipeline_defs)

theorem one_record_per_attendee_witness:
  "attendance demo_store = [] \<and> session_attendees demo_store = [] \<and>
   amina_twice = submit_all demo_env [(amina, 10), (amina, 20)] demo_store \<and>
   length (records_of amina_twice ''s1'' ''amina@univ.dz'') = 1 \<and>
   hasSessionAttendee amina_twice (body_sessionId amina) (body_email amina) \<and>
   fst (isSessionValid 30 (body_sessionId amina) amina_twice)
     = Valid (demo_session\<lparr>attendeeCount := 1\<rparr>) \<and>
   attendance (fst (snd (submit demo_env amina 30 amina_twice))) = attendance amina_twice \<and>
   snd (snd (submit demo_env amina 30 amina_twice)) = []"
proof -
  have a: "attendance demo_store = []" and b: "session_attendees demo_store = []"
    by (simp_all add: demo_store_def)
  have k: "body_sessionId amina = ''s1''" "body_email amina = ''amina@univ.dz''"
    by (simp_all add: amina_def)
  have h: "hasSessionAttendee amina_twice ''s1'' ''amina@univ.dz''"
    by (simp add: amina_twice_eq after_amina_fields hasSessionAttendee_def)
  have v: "fst (isSessionValid 30 ''s1'' amina_twice)
             = Valid (demo_session\<lparr>attendeeCount := 1\<rparr>)"
    by (simp add: amina_twice_eq after_amina_fields isSessionValid_def getSession_def
          demo_session_def)
  from one_record_per_attendee[OF a b, of demo_env "[(amina, 10), (amina, 20)]" "''s1''"
      "''amina@univ.dz''" amina 30 "demo_session\<lparr>attendeeCount := 1\<rparr>",
      folded amina_twice_def]
    a b h v amina_twice_def
  show ?thesis by (simp add: k)
qed

theorem no_coordinates_witness:
  "usable None = None \<and> usable (Some student_here) = Some student_here \<and>
   fst (isSessionValid 20 (body_sessionId bilal) after_amina) = Valid (demo_session\<lparr>attendeeCount := 1\<rparr>) \<and>
   \<not> hasSessionAttendee after_amina (body_sessionId bilal) (body_email bilal) \<and>
   \<not> (truthy_num (body_latitude bilal) \<and> truthy_num (body_longitude bilal)) \<and>
   validateLocation demo_env None (Some classroom) (Some 100) =
     \<lparr>valid = False, distance = - 1, reason = NoLocationData\<rparr> \<and>
   isValid (validateSubmission demo_env demo_store ''s1'' ''Bilal'' ''bilal@univ.dz''
              (Some ''10.0.0.2'') (Some ''N/A'') None (Some classroom) (Some 100)) \<and>
   validateLocation demo_env (Some student_here) None (Some 100) =
     \<lparr>valid = True, distance = 0, reason = NoClassroomLocation\<rparr> \<and>
   isDuplicate (checkDuplicateDevice after_amina (body_sessionId bilal) (req_ipAddress bilal)
                  (mac_or_na (body_macAddress bilal))) \<and>
   status (last (attendance (fst (snd (submit demo_env bilal 20 after_amina))))) = ''FLAGGED'' \<and>
   ''Location Violation'' \<notin>
     vtype ` set (violations (last (attendance (fst (snd (submit demo_env bilal 20 after_amina))))))"
proof -
  have a: "usable None = None" by (simp add: usable_def)
  have b: "usable (Some student_here) = Some student_here"
    by (simp add: usable_def truthy_num_def student_here_def)
  have v: "fst (isSessionValid 20 (body_sessionId bilal) after_amina)
             = Valid (demo_session\<lparr>attendeeCount := 1\<rparr>)"
    by (simp add: after_amina_fields isSessionValid_def getSession_def bilal_def demo_session_def)
  have h: "\<not> hasSessionAttendee after_amina (body_sessionId bilal) (body_email bilal)"
    by (simp add: after_amina_fields hasSessionAttendee_def bilal_def)
  have c: "\<not> (truthy_num (body_latitude bilal) \<and> truthy_num (body_longitude bilal))"
    by (simp add: bilal_def truthy_num_def)
  have d: "isDuplicate (checkDuplicateDevice after_amina (body_sessionId bilal) (req_ipAddress bilal)
                  (mac_or_na (body_macAddress bilal)))"
    by (simp add: after_amina_def demo_defs pipeline_defs)
  have e: "\<not> isDuplicate (checkDuplicateDevice demo_store ''s1'' (Some ''10.0.0.2'') (Some ''N/A''))"
    by (simp add: demo_store_def checkDuplicateDevice_def getAttendanceStore_def)
  from no_coordinates[OF a b a v h c, of demo_env "Some classroom" "Some 100" demo_store "''s1''"
      "''Bilal''" "''bilal@univ.dz''" "Some ''10.0.0.2''" "Some ''N/A''"]
    a b v h c d e
  show ?thesis by simp
qed

theorem na_mac_flags_later_submission_witness:
  "fst (isSessionValid 10 ''s1'' demo_store) = Valid demo_session \<and>
   body_sessionId amina = ''s1'' \<and> body_sessionId bilal = ''s1'' \<and>
   \<not> hasSessionAttendee demo_store ''s1'' (body_email amina) \<and>
   \<not> truthy_str (body_macAddress amina) \<and> \<not> truthy_str (body_macAddress bilal) \<and>
   req_ipAddress amina \<noteq> req_ipAddress bilal \<and>
   fst (isSessionValid 20 ''s1'' (submit_all demo_env [(ghost, 15)] after_amina))
     = Valid (demo_session\<lparr>attendeeCount := 1\<rparr>) \<and>
   \<not> hasSessionAttendee (submit_all demo_env [(ghost, 15)] after_amina) ''s1'' (body_email bilal) \<and>
   status (last (attendance (fst (snd (submit demo_env bilal 20
      (submit_all demo_env [(ghost, 15)] after_amina)))))) = ''FLAGGED'' \<and>
   ''Duplicate Device'' \<in> vtype ` set (violations (last (attendance (fst (snd (submit demo_env bilal 20
      (submit_all demo_env [(ghost, 15)] after_amina))))))) \<and>
   body_email amina \<in> set (duplicateOf (checkDuplicateDevice
      (submit_all demo_env [(ghost, 15)] after_amina) ''s1'' (req_ipAddress bilal)
      (mac_or_na (body_macAddress bilal))))"
proof -
  have "isSessionValid 15 ''nope'' after_amina = (Invalid ''Session not found'', after_amina)"
    by (simp add: isSessionValid_def getSession_def after_amina_fields)
  then have g: "submit_all demo_env [(ghost, 15)] after_amina = after_amina"
    by (simp add: submit_def ghost_def)
  have v1: "fst (isSessionValid 10 ''s1'' demo_store) = Valid demo_session"
    by (simp add: isSessionValid_def getSession_def demo_store_def demo_session_def)
  have k1: "body_sessionId amina = ''s1''" and k2: "body_sessionId bilal = ''s1''"
    by (simp_all add: amina_def bilal_def)
  have h1: "\<not> hasSessionAttendee demo_store ''s1'' (body_email amina)"
    by (simp add: hasSessionAttendee_def demo_store_def)
  have m1: "\<not> truthy_str (body_macAddress amina)" and m2: "\<not> truthy_str (body_macAddress bilal)"
    by (simp_all add: amina_def bilal_def truthy_str_def)
  have s2: "submit_all demo_env [(ghost, 15)] after_amina
              = submit_all demo_env [(ghost, 15)] (fst (snd (submit demo_env amina 10 demo_store)))"
    by (simp add: after_amina_def)
  have v2: "fst (isSessionValid 20 ''s1'' (submit_all demo_env [(ghost, 15)] after_amina))
              = Valid (demo_session\<lparr>attendeeCount := 1\<rparr>)"
    unfolding g by (simp add: after_amina_fields isSessionValid_def getSession_def demo_session_def)
  have h2: "\<not> hasSessionAttendee (submit_all demo_env [(ghost, 15)] after_amina) ''s1'' (body_email bilal)"
    unfolding g by (simp add: after_amina_fields hasSessionAttendee_def bilal_def)
  have ip: "req_ipAddress amina \<noteq> req_ipAddress bilal" by (simp add: amina_def bilal_def)
  from na_mac_flags_later_submission[OF v1 k1 h1 m1 s2 v2 k2 h2 m2]
    v1 k1 k2 h1 m1 m2 ip v2 h2
  show ?thesis by simp
qed

end
